theory Spec2Isabelle
  imports Main "HOL-Library.Char_ord" "HOL-Library.List_Lexorder" "HOL-Library.AList"
    "HOL-Library.Multiset"
begin

section \<open>Data model of main.cpp\<close>

text \<open>
  The structs of main.cpp as records. \<open>size_t\<close> values are natural numbers below
  \<open>2 ^ 64\<close> (the wrap-around is written out where the code adds), \<open>int\<close> values are
  integers, \<open>std::string\<close> and \<open>std::vector<char>\<close> are lists of characters.
\<close>

type_synonym bytes = "char list"

record Config =
  inputs_file :: string
  outputs_file :: string
  tile_size :: int
  suffix :: string
  jpeg_quality :: int
  threads :: nat
  keep_tiles :: bool

record ImageTask =
  input_path :: string
  output_path :: string
  index :: nat

record ProcessResult =
  result_index :: nat
  success :: bool
  error_message :: string
  width :: int
  height :: int

record TileInfo =
  key :: string
  binary_name :: string
  start_offset :: nat
  size' :: nat

text \<open>
  Exceptions are values. Every exception of the program derives from
  \<open>std::exception\<close>: the \<open>std::runtime_error\<close> thrown by main.cpp itself, the
  \<open>filesystem_error\<close> of \<open>std::filesystem\<close> and the \<open>VError\<close> of libvips.
  \<open>what\<close> is the message \<open>e.what()\<close> that \<open>process_image\<close> records.
\<close>

datatype error = RuntimeError string | FilesystemError string | VipsError string

fun what :: "error \<Rightarrow> string" where
  "what (RuntimeError m) = m"
| "what (FilesystemError m) = ''filesystem error: '' @ m"
| "what (VipsError m) = m"

definition SIZE_MOD :: nat where
  "SIZE_MOD = 2 ^ 64"

definition INT_MIN :: int where
  "INT_MIN = - 2147483648"

definition INT_MAX :: int where
  "INT_MAX = 2147483647"

section \<open>read_tasks\<close>

text \<open>
  A \<open>std::ifstream\<close> is modelled by the characters not yet read. \<open>std::getline\<close>
  fails (the stream tests false) exactly when no character is left; otherwise it
  returns the characters before the next newline and consumes that newline. After a
  last line without a newline nothing is left, so the next call fails, as the eofbit
  makes it fail in C++.
\<close>

definition newline :: char where
  "newline = CHR 0x0A"

definition getline :: "string \<Rightarrow> (string \<times> string) option" where
  "getline s =
     (if s = [] then None
      else Some (takeWhile (\<lambda>c. c \<noteq> newline) s,
                 drop 1 (dropWhile (\<lambda>c. c \<noteq> newline) s)))"

lemma getline_shorter: "getline s = Some (l, r) \<Longrightarrow> length r < length s"
proof -
  assume a: "getline s = Some (l, r)"
  then have ne: "s \<noteq> []" and r: "r = drop 1 (dropWhile (\<lambda>c. c \<noteq> newline) s)"
    by (auto simp: getline_def split: if_splits)
  have "length (dropWhile (\<lambda>c. c \<noteq> newline) s) \<le> length s"
    by (rule length_dropWhile_le)
  with ne r show ?thesis
    by (cases s) auto
qed

text \<open>
  The loop of \<open>read_tasks\<close>: one line of each stream per round; the round ends the
  loop as soon as either stream has no line left. \<open>idx\<close> is the local \<open>index\<close>,
  advanced only when a task is pushed.
\<close>

function read_loop :: "string \<Rightarrow> string \<Rightarrow> nat \<Rightarrow> ImageTask list \<Rightarrow> ImageTask list" where
  "read_loop inputs outputs idx tasks =
     (case getline inputs of
        None \<Rightarrow> tasks
      | Some (in_path, inputs') \<Rightarrow>
          (case getline outputs of
             None \<Rightarrow> tasks
           | Some (out_path, outputs') \<Rightarrow>
               if in_path \<noteq> [] \<and> out_path \<noteq> []
               then read_loop inputs' outputs' (idx + 1)
                      (tasks @ [\<lparr>input_path = in_path, output_path = out_path, index = idx\<rparr>])
               else read_loop inputs' outputs' idx tasks))"
  by pat_completeness auto
termination
  by (relation "measure (\<lambda>(i, out, n, t). length i)") (auto dest: getline_shorter)

declare read_loop.simps [simp del]

text \<open>
  \<open>open_file\<close> is the file system as \<open>read_tasks\<close> sees it: the content of the file
  at a path, or \<open>None\<close> when the stream cannot be opened.
\<close>

definition read_tasks :: "(string \<Rightarrow> string option) \<Rightarrow> string \<Rightarrow> string \<Rightarrow> error + ImageTask list" where
  "read_tasks open_file input_file output_file =
     (case open_file input_file of
        None \<Rightarrow> Inl (RuntimeError (''Cannot open input file: '' @ input_file))
      | Some inputs \<Rightarrow>
          (case open_file output_file of
             None \<Rightarrow> Inl (RuntimeError (''Cannot open output file: '' @ output_file))
           | Some outputs \<Rightarrow> Inr (read_loop inputs outputs 0 [])))"

text \<open>
  The lines of a text file the way the specification counts them: the file is cut at
  every newline, and a last piece with no character in it is not a line.
\<close>

fun split_lines :: "string \<Rightarrow> string \<Rightarrow> string list" where
  "split_lines cur [] = (if cur = [] then [] else [cur])"
| "split_lines cur (c # cs) =
     (if c = newline then cur # split_lines [] cs else split_lines (cur @ [c]) cs)"

definition file_lines :: "string \<Rightarrow> string list" where
  "file_lines s = split_lines [] s"

text \<open>A list of path pairs numbered from \<open>idx\<close> on, as tasks.\<close>

fun number_tasks :: "nat \<Rightarrow> (string \<times> string) list \<Rightarrow> ImageTask list" where
  "number_tasks idx [] = []"
| "number_tasks idx ((a, b) # ps) =
     \<lparr>input_path = a, output_path = b, index = idx\<rparr> # number_tasks (idx + 1) ps"

definition both_nonblank :: "string \<times> string \<Rightarrow> bool" where
  "both_nonblank p = (fst p \<noteq> [] \<and> snd p \<noteq> [])"

section \<open>next_power_of_2\<close>

text \<open>
  \<open>int\<close> is 32 bits wide and its overflow is undefined behaviour in C++. The loop
  doubles \<open>power\<close>; where the doubling leaves the range of \<open>int\<close> the model stops with
  \<open>None\<close>: the program has no defined result there (with two's complement
  wrap-around \<open>power\<close> would go from \<open>2 ^ 30\<close> to \<open>- 2 ^ 31\<close> and then to \<open>0\<close>, where the
  loop never ends).
\<close>

partial_function (option) power_loop :: "int \<Rightarrow> int \<Rightarrow> int option" where
  "power_loop pw n =
     (if pw < n
      then (if pw * 2 < INT_MIN \<or> INT_MAX < pw * 2 then None else power_loop (pw * 2) n)
      else Some pw)"

declare power_loop.simps [code]

definition next_power_of_2 :: "int \<Rightarrow> int option" where
  "next_power_of_2 n = (if n \<le> 0 then Some 1 else power_loop 1 n)"

text \<open>The specification's "least power of two that is at least \<open>n\<close>".\<close>

definition least_power_of_2_ge :: "int \<Rightarrow> int \<Rightarrow> bool" where
  "least_power_of_2_ge n p =
     ((\<exists>k::nat. p = 2 ^ k) \<and> n \<le> p \<and> (\<forall>j::nat. n \<le> 2 ^ j \<longrightarrow> p \<le> 2 ^ j))"

section \<open>The file system and paths\<close>

text \<open>
  What the program reads and writes below one tile folder is a tree. A regular file
  carries its bytes and whether a stream on it can be opened; a directory carries
  whether it can be opened and its entries, in the order in which
  \<open>fs::directory_iterator\<close> enumerates them (an order the C++ standard leaves
  unspecified); \<open>Other\<close> is an entry that is neither (a device, a socket, a
  pipe). Symbolic links are not modelled.
\<close>

datatype node = File bool bytes | Dir bool "(string \<times> node) list" | Other

fun is_directory :: "node \<Rightarrow> bool" where
  "is_directory (Dir ok es) = True"
| "is_directory n = False"

fun is_regular_file :: "node \<Rightarrow> bool" where
  "is_regular_file (File ok d) = True"
| "is_regular_file n = False"

text \<open>
  An \<open>fs::path\<close> below the tile folder is the list of its components after the tile
  folder; the tile folder itself is kept as the string main.cpp passes around
  (written without a trailing separator). \<open>operator<\<close> of \<open>fs::path\<close>, which
  \<open>std::sort\<close> uses, compares two paths component by component and each component
  as a string of unsigned characters: that is the lexicographic order of
  \<open>string list\<close>. All paths of one run start with the same tile folder, which
  therefore plays no part in the comparison.
\<close>

type_synonym path = "string list"

definition path_string :: "string \<Rightarrow> path \<Rightarrow> string" where
  "path_string tile_folder p = tile_folder @ concat (map (\<lambda>c. CHR ''/'' # c) p)"

definition filename :: "path \<Rightarrow> string" where
  "filename p = (if p = [] then [] else last p)"

definition parent_path :: "path \<Rightarrow> path" where
  "parent_path p = butlast p"

text \<open>
  \<open>path::extension\<close> of a file name: from the rightmost period on, unless the name
  is \<open>.\<close> or \<open>..\<close>, has no period, or has its only rightmost period in front.
  \<open>path::stem\<close> is the name without its extension.
\<close>

definition extension :: "string \<Rightarrow> string" where
  "extension name =
     (if name = ''.'' \<or> name = ''..'' \<or> CHR ''.'' \<notin> set name then []
      else let pos = length name - 1 - length (takeWhile (\<lambda>c. c \<noteq> CHR ''.'') (rev name))
           in if pos = 0 then [] else drop pos name)"

definition stem :: "string \<Rightarrow> string" where
  "stem name = take (length name - length (extension name)) name"

definition isdigit :: "char \<Rightarrow> bool" where
  "isdigit c = (CHR ''0'' \<le> c \<and> c \<le> CHR ''9'')"

definition all_digits :: "string \<Rightarrow> bool" where
  "all_digits name = list_all isdigit name"

text \<open>\<open>::tolower\<close> in the C locale: the 26 capital letters change, nothing else does.\<close>

definition tolower :: "char \<Rightarrow> char" where
  "tolower c =
     (case map_of (zip ''ABCDEFGHIJKLMNOPQRSTUVWXYZ'' ''abcdefghijklmnopqrstuvwxyz'') c of
        None \<Rightarrow> c
      | Some l \<Rightarrow> l)"

definition is_tile_extension :: "string \<Rightarrow> bool" where
  "is_tile_extension name =
     (let ext = map tolower (extension name)
      in ext = ''.png'' \<or> ext = ''.jpg'' \<or> ext = ''.jpeg'')"

text \<open>Constructing a \<open>directory_iterator\<close> throws unless the directory can be opened.\<close>

definition directory_iterator :: "string \<Rightarrow> node \<Rightarrow> error + (string \<times> node) list" where
  "directory_iterator p n =
     (case n of
        Dir True es \<Rightarrow> Inr es
      | _ \<Rightarrow> Inl (FilesystemError (''directory iterator cannot open directory: '' @ p)))"

text \<open>The node at a path below a folder, resolved name by name.\<close>

fun lookup :: "node \<Rightarrow> path \<Rightarrow> node option" where
  "lookup n [] = Some n"
| "lookup (Dir ok es) (c # cs) =
     (if ok then (case map_of es c of None \<Rightarrow> None | Some n \<Rightarrow> lookup n cs) else None)"
| "lookup n (c # cs) = None"

text \<open>
  Lines 261 to 264: the \<open>ifstream\<close> on the tile is never tested. When it cannot be
  opened, the \<open>istreambuf_iterator\<close> range over it is empty and so is \<open>tile_data\<close>.
\<close>

definition read_file :: "node \<Rightarrow> path \<Rightarrow> bytes" where
  "read_file folder p = (case lookup folder p of Some (File True d) \<Rightarrow> d | _ \<Rightarrow> [])"

text \<open>
  Opening a \<open>std::ofstream\<close> on \<open>name\<close> inside the folder creates the file or
  truncates it; the stream tests false when the folder cannot be opened or the name
  is taken by something that cannot be opened as a file.
\<close>

definition open_ofstream :: "string \<Rightarrow> node \<Rightarrow> node option" where
  "open_ofstream name folder =
     (case folder of
        Dir True es \<Rightarrow>
          (case map_of es name of
             None \<Rightarrow> Some (Dir True (AList.update name (File True []) es))
           | Some (File True d) \<Rightarrow> Some (Dir True (AList.update name (File True []) es))
           | Some n \<Rightarrow> None)
      | _ \<Rightarrow> None)"

section \<open>gzip_compress\<close>

text \<open>
  zlib is not part of the repository: \<open>z\<close> stands for what \<open>deflateInit2\<close> followed
  by one \<open>deflate(Z_FINISH)\<close> into a buffer of \<open>deflateBound\<close> bytes gives on the
  input, as a function of the input.
\<close>

datatype deflate_result = InitFailed | NotStreamEnd | StreamEnd bytes

type_synonym zlib = "bytes \<Rightarrow> deflate_result"

definition gzip_compress :: "zlib \<Rightarrow> bytes \<Rightarrow> error + bytes" where
  "gzip_compress z data =
     (case z data of
        InitFailed \<Rightarrow> Inl (RuntimeError ''Failed to initialize gzip compression'')
      | NotStreamEnd \<Rightarrow> Inl (RuntimeError ''Failed to compress data'')
      | StreamEnd compressed \<Rightarrow> Inr compressed)"

section \<open>merge_tiles_to_binary\<close>

text \<open>
  Lines 231 to 253, the three nested loops, innermost first. \<open>tile_files\<close> is the
  vector the loops push to. The level loop tests the name for digits; the row loop
  tests only that the entry is a directory; the tile loop tests that the entry is a
  regular file and its lower-cased extension.
\<close>

fun collect_tiles :: "path \<Rightarrow> (string \<times> node) list \<Rightarrow> path list \<Rightarrow> path list" where
  "collect_tiles dir [] tile_files = tile_files"
| "collect_tiles dir ((name, n) # es) tile_files =
     (if \<not> is_regular_file n then collect_tiles dir es tile_files
      else if is_tile_extension name then collect_tiles dir es (tile_files @ [dir @ [name]])
      else collect_tiles dir es tile_files)"

fun collect_rows :: "string \<Rightarrow> path \<Rightarrow> (string \<times> node) list \<Rightarrow> path list \<Rightarrow> error + path list" where
  "collect_rows tile_folder dir [] tile_files = Inr tile_files"
| "collect_rows tile_folder dir ((name, n) # es) tile_files =
     (if \<not> is_directory n then collect_rows tile_folder dir es tile_files
      else (case directory_iterator (path_string tile_folder (dir @ [name])) n of
              Inl e \<Rightarrow> Inl e
            | Inr tile_entries \<Rightarrow>
                collect_rows tile_folder dir es
                  (collect_tiles (dir @ [name]) tile_entries tile_files)))"

fun collect_levels :: "string \<Rightarrow> (string \<times> node) list \<Rightarrow> path list \<Rightarrow> error + path list" where
  "collect_levels tile_folder [] tile_files = Inr tile_files"
| "collect_levels tile_folder ((name, n) # es) tile_files =
     (if \<not> is_directory n then collect_levels tile_folder es tile_files
      else if \<not> all_digits name then collect_levels tile_folder es tile_files
      else (case directory_iterator (path_string tile_folder [name]) n of
              Inl e \<Rightarrow> Inl e
            | Inr y_entries \<Rightarrow>
                (case collect_rows tile_folder [name] y_entries tile_files of
                   Inl e \<Rightarrow> Inl e
                 | Inr tile_files' \<Rightarrow> collect_levels tile_folder es tile_files')))"

text \<open>Lines 272 to 278: the key of a tile from its path.\<close>

definition tile_key :: "path \<Rightarrow> string" where
  "tile_key tile_path =
     (let parent = parent_path tile_path;
          tile_x = stem (filename tile_path);
          tile_y = filename parent;
          level = filename (parent_path parent)
      in level @ ''_'' @ tile_y @ ''_'' @ tile_x)"

text \<open>
  Line 270: \<open>binary_file.write\<close>. The state of the stream is what the file holds and
  whether the stream is still good. A write can fail (no space left, a limit on the
  size of the file): \<open>room\<close> is the number of bytes the file system takes for the
  file, \<open>None\<close> when it takes whatever is written. A write that does not fit leaves
  the part that fits and sets the stream bad, and a bad stream ignores every later
  write. Nothing is thrown, and main.cpp never tests the stream after opening it.
\<close>

type_synonym ofstream = "bytes \<times> bool"

definition ofstream_write :: "nat option \<Rightarrow> ofstream \<Rightarrow> bytes \<Rightarrow> ofstream" where
  "ofstream_write room stream data =
     (if \<not> snd stream then stream
      else (case room of
              None \<Rightarrow> (fst stream @ data, True)
            | Some n \<Rightarrow>
                if length (fst stream) + length data \<le> n then (fst stream @ data, True)
                else (fst stream @ take (n - length (fst stream)) data, False)))"

text \<open>
  Lines 259 to 283, the loop over the sorted paths. \<open>stream\<close> is the state of
  \<open>binary_file\<close>, \<open>current_offset\<close> the \<open>size_t\<close> counter, \<open>tiles_map\<close> the vector of
  entries. The entry is pushed and the counter advanced whether or not the write
  went through.
\<close>

fun pack_tiles :: "nat option \<Rightarrow> zlib \<Rightarrow> string \<Rightarrow> node \<Rightarrow> path list \<Rightarrow> ofstream \<Rightarrow> nat
    \<Rightarrow> TileInfo list \<Rightarrow> error + (ofstream \<times> nat \<times> TileInfo list)" where
  "pack_tiles room z bin_name folder [] stream current_offset tiles_map =
     Inr (stream, current_offset, tiles_map)"
| "pack_tiles room z bin_name folder (tile_path # rest) stream current_offset tiles_map =
     (let tile_data = read_file folder tile_path
      in case gzip_compress z tile_data of
           Inl e \<Rightarrow> Inl e
         | Inr compressed \<Rightarrow>
             pack_tiles room z bin_name folder rest
               (ofstream_write room stream compressed)
               ((current_offset + length compressed) mod SIZE_MOD)
               (tiles_map @ [\<lparr>key = tile_key tile_path, binary_name = bin_name,
                               start_offset = current_offset, size' = length compressed\<rparr>]))"

text \<open>
  Lines 288 to 303. \<open>fs::remove_all\<close> throws when a directory below cannot be
  opened; \<open>fs::remove\<close> throws on a directory that is not empty.
\<close>

fun removable :: "node \<Rightarrow> bool" where
  "removable (Dir ok es) = (ok \<and> list_all (\<lambda>e. removable (snd e)) es)"
| "removable n = True"

fun remove_level_dirs :: "string \<Rightarrow> (string \<times> node) list \<Rightarrow> error + (string \<times> node) list" where
  "remove_level_dirs tile_folder [] = Inr []"
| "remove_level_dirs tile_folder ((name, n) # es) =
     (if \<not> is_directory n then map_sum id (Cons (name, n)) (remove_level_dirs tile_folder es)
      else if all_digits name
      then (if removable n then remove_level_dirs tile_folder es
            else Inl (FilesystemError (''cannot remove all: '' @ path_string tile_folder [name])))
      else map_sum id (Cons (name, n)) (remove_level_dirs tile_folder es))"

definition remove_blank_png :: "string \<Rightarrow> (string \<times> node) list \<Rightarrow> error + (string \<times> node) list" where
  "remove_blank_png tile_folder es =
     (case map_of es ''blank.png'' of
        None \<Rightarrow> Inr es
      | Some (Dir ok (e # es')) \<Rightarrow>
          Inl (FilesystemError (''cannot remove: '' @ path_string tile_folder [''blank.png'']))
      | Some n \<Rightarrow> Inr (AList.delete ''blank.png'' es))"

text \<open>
  The whole function. The blob file is opened first and is an entry of the folder
  while the folder is walked; after line 285 it holds what the stream took. \<open>room\<close>
  is the room the file system has for the blob file.
\<close>

definition merge_tiles_to_binary :: "nat option \<Rightarrow> zlib \<Rightarrow> string \<Rightarrow> string \<Rightarrow> bool \<Rightarrow> node
    \<Rightarrow> error + (TileInfo list \<times> node)" where
  "merge_tiles_to_binary room z tile_folder bin_name keep folder =
     (case open_ofstream bin_name folder of
        None \<Rightarrow> Inl (RuntimeError (''Cannot create binary file: '' @ path_string tile_folder [bin_name]))
      | Some folder1 \<Rightarrow>
          (case directory_iterator tile_folder folder1 of
             Inl e \<Rightarrow> Inl e
           | Inr level_entries \<Rightarrow>
               (case collect_levels tile_folder level_entries [] of
                  Inl e \<Rightarrow> Inl e
                | Inr tile_files \<Rightarrow>
                    (case pack_tiles room z bin_name folder1 (sort tile_files) ([], True) 0 [] of
                       Inl e \<Rightarrow> Inl e
                     | Inr (stream, current_offset, tiles_map) \<Rightarrow>
                         (let written = AList.update bin_name (File True (fst stream)) level_entries
                          in if \<not> keep
                             then (case remove_level_dirs tile_folder written of
                                     Inl e \<Rightarrow> Inl e
                                   | Inr es \<Rightarrow>
                                       (case remove_blank_png tile_folder es of
                                          Inl e \<Rightarrow> Inl e
                                        | Inr es' \<Rightarrow> Inr (tiles_map, Dir True es')))
                             else Inr (tiles_map, Dir True written))))))"

section \<open>write_metadata\<close>

text \<open>\<open>operator<<\<close> on a \<open>size_t\<close> and on an \<open>int\<close>: the decimal digits.\<close>

definition digit_char :: "nat \<Rightarrow> char" where
  "digit_char d = ''0123456789'' ! d"

fun show_nat :: "nat \<Rightarrow> string" where
  "show_nat n =
     (if n < 10 then [digit_char n]
      else show_nat (n div 10) @ [digit_char (n mod 10)])"

declare show_nat.simps [simp del]

definition show_int :: "int \<Rightarrow> string" where
  "show_int i = (if i < 0 then CHR ''-'' # show_nat (nat (- i)) else show_nat (nat i))"

definition dquote :: string where
  "dquote = [CHR 0x22]"

definition tile_text :: "TileInfo \<Rightarrow> string" where
  "tile_text tile =
     ''    '' @ dquote @ key tile @ dquote @ '': {'' @ [newline] @
     ''      '' @ dquote @ ''binaryName'' @ dquote @ '': '' @ dquote @ binary_name tile @ dquote @ '','' @ [newline] @
     ''      '' @ dquote @ ''startOffset'' @ dquote @ '': '' @ show_nat (start_offset tile) @ '','' @ [newline] @
     ''      '' @ dquote @ ''size'' @ dquote @ '': '' @ show_nat (size' tile) @ [newline] @
     ''    }''"

text \<open>
  The loop of lines 324 to 335: a comma follows every entry but the last
  (\<open>i < tiles_map.size() - 1\<close>; the loop body does not run on an empty vector).
\<close>

fun tiles_text :: "TileInfo list \<Rightarrow> string" where
  "tiles_text [] = []"
| "tiles_text (tile # rest) =
     tile_text tile @ (if rest \<noteq> [] then '','' else []) @ [newline] @ tiles_text rest"

definition metadata_text :: "int \<Rightarrow> int \<Rightarrow> int \<Rightarrow> TileInfo list \<Rightarrow> string" where
  "metadata_text w h ts tiles_map =
     ''{'' @ [newline] @
     ''  '' @ dquote @ ''width'' @ dquote @ '': '' @ show_int w @ '','' @ [newline] @
     ''  '' @ dquote @ ''height'' @ dquote @ '': '' @ show_int h @ '','' @ [newline] @
     ''  '' @ dquote @ ''tile_size'' @ dquote @ '': '' @ show_int ts @ '','' @ [newline] @
     ''  '' @ dquote @ ''tiles'' @ dquote @ '': {'' @ [newline] @
     tiles_text tiles_map @
     ''  }'' @ [newline] @
     ''}'' @ [newline]"

text \<open>
  The function itself. The stream on the descriptor is tested after opening; its
  writes are taken to go through.
\<close>

definition write_metadata :: "string \<Rightarrow> int \<Rightarrow> int \<Rightarrow> int \<Rightarrow> TileInfo list \<Rightarrow> node \<Rightarrow> error + node" where
  "write_metadata output_folder w h ts tiles_map folder =
     (case open_ofstream ''metadata.json'' folder of
        None \<Rightarrow> Inl (RuntimeError (''Cannot create metadata file: '' @
                      path_string output_folder [''metadata.json'']))
      | Some (Dir ok es) \<Rightarrow>
          Inr (Dir ok (AList.update ''metadata.json'' (File True (metadata_text w h ts tiles_map)) es))
      | Some n \<Rightarrow> Inr n)"

section \<open>process_image\<close>

text \<open>
  libvips is not part of the repository. \<open>new_from_file\<close> gives the width and the
  height of the image at a path, or throws. \<open>resize_dzsave\<close> stands for the calls
  \<open>resize\<close> and \<open>dzsave\<close> on the input path, the target size, the configuration and
  the output path: it throws, or leaves the output folder as the returned tree.
\<close>

record Vips =
  new_from_file :: "string \<Rightarrow> error + (int \<times> int)"
  resize_dzsave :: "string \<Rightarrow> int \<Rightarrow> Config \<Rightarrow> string \<Rightarrow> error + node"

text \<open>
  \<open>room\<close> is the room the file system has for the blob file of the job. The result
  is the \<open>ProcessResult\<close>, the new value of the global
  \<open>completed_count\<close>, and the output folder when the job ran to its end (after a
  failure the folder is not followed further). The result is \<open>None\<close> where
  \<open>next_power_of_2\<close> has no defined result. The \<open>try\<close> block ends at the first
  exception; the handler stores \<open>e.what()\<close> and nothing else. Console output is
  left out.
\<close>

definition process_image :: "Vips \<Rightarrow> nat option \<Rightarrow> zlib \<Rightarrow> ImageTask \<Rightarrow> Config \<Rightarrow> nat
    \<Rightarrow> (ProcessResult \<times> nat \<times> node option) option" where
  "process_image vips room z task config completed_count =
     (let result = \<lparr>result_index = index task, success = False, error_message = [],
                     width = 0, height = 0\<rparr>
      in case new_from_file vips (input_path task) of
           Inl e \<Rightarrow> Some (result\<lparr>error_message := what e\<rparr>, completed_count, None)
         | Inr (w, h) \<Rightarrow>
             (case next_power_of_2 (max w h) of
                None \<Rightarrow> None
              | Some target_size \<Rightarrow>
                  (case resize_dzsave vips (input_path task) target_size config (output_path task) of
                     Inl e \<Rightarrow> Some (result\<lparr>error_message := what e\<rparr>, completed_count, None)
                   | Inr tiled \<Rightarrow>
                       (let result = result\<lparr>success := True, width := target_size,
                                              height := target_size\<rparr>
                        in case merge_tiles_to_binary room z (output_path task) ''tiles_000.binz''
                                  (keep_tiles config) tiled of
                             Inl e \<Rightarrow> Some (result\<lparr>error_message := what e\<rparr>, completed_count, None)
                           | Inr (tiles_map, merged) \<Rightarrow>
                               (case write_metadata (output_path task) target_size target_size
                                       (tile_size config) tiles_map merged of
                                  Inl e \<Rightarrow> Some (result\<lparr>error_message := what e\<rparr>, completed_count, None)
                                | Inr final \<Rightarrow>
                                    Some (result, completed_count + 1, Some final))))))"

section \<open>The loop of main\<close>

text \<open>
  Lines 448 to 465 as a transition system. \<open>std::async\<close> with \<open>std::launch::async\<close>
  starts the job on a thread of its own at once; \<open>wait\<close> on a future returns once
  that job has completed. A state holds the tasks not yet launched (by index), the
  vector \<open>futures\<close>, the position of the final loop in it, the set of jobs that
  have been launched and have not completed, and where the main thread stands. An
  event is either the next step of the main thread or the completion of a running
  job; a step is \<open>None\<close> when the event cannot happen in the state (the main thread
  is blocked in \<open>wait\<close>, or the job is not running).
\<close>

datatype pc = AtLaunch | AtWait | AtFinalLoop | AtEnd

record Sched =
  todo :: "nat list"
  futures :: "nat list"
  final_pos :: nat
  running :: "nat set"
  at :: pc

datatype event = MainStep | Completes nat

definition init_sched :: "nat list \<Rightarrow> Sched" where
  "init_sched tasks = \<lparr>todo = tasks, futures = [], final_pos = 0, running = {}, at = AtLaunch\<rparr>"

fun sched_step :: "nat \<Rightarrow> event \<Rightarrow> Sched \<Rightarrow> Sched option" where
  "sched_step n_threads (Completes j) s =
     (if j \<in> running s then Some (s\<lparr>running := running s - {j}\<rparr>) else None)"
| "sched_step n_threads MainStep s =
     (case at s of
        AtLaunch \<Rightarrow>
          (case todo s of
             [] \<Rightarrow> Some (s\<lparr>at := AtFinalLoop\<rparr>)
           | task # rest \<Rightarrow>
               Some (s\<lparr>todo := rest, futures := futures s @ [task],
                       running := insert task (running s),
                       at := (if length (futures s @ [task]) \<ge> n_threads then AtWait else AtLaunch)\<rparr>))
      | AtWait \<Rightarrow>
          (case futures s of
             [] \<Rightarrow> None
           | front # others \<Rightarrow>
               if front \<in> running s then None
               else Some (s\<lparr>futures := others, at := AtLaunch\<rparr>))
      | AtFinalLoop \<Rightarrow>
          (if final_pos s < length (futures s)
           then (if futures s ! final_pos s \<in> running s then None
                 else Some (s\<lparr>final_pos := final_pos s + 1\<rparr>))
           else Some (s\<lparr>at := AtEnd\<rparr>))
      | AtEnd \<Rightarrow> None)"

fun run_events :: "nat \<Rightarrow> event list \<Rightarrow> Sched \<Rightarrow> Sched option" where
  "run_events n_threads [] s = Some s"
| "run_events n_threads (ev # evs) s =
     (case sched_step n_threads ev s of None \<Rightarrow> None | Some s' \<Rightarrow> run_events n_threads evs s')"

section \<open>Notions used in the statements\<close>

text \<open>
  The entries the packing loop pushes for a list of tile paths with their compressed
  bytes, starting at offset \<open>off\<close>.
\<close>

fun entries_from :: "string \<Rightarrow> nat \<Rightarrow> (path \<times> bytes) list \<Rightarrow> TileInfo list" where
  "entries_from bin_name off [] = []"
| "entries_from bin_name off ((p, c) # rest) =
     \<lparr>key = tile_key p, binary_name = bin_name, start_offset = off, size' = length c\<rparr>
       # entries_from bin_name ((off + length c) mod SIZE_MOD) rest"


text \<open>\<open>gzip_compress\<close> returns \<open>c\<close> on what the packing loop reads at path \<open>p\<close>.\<close>

definition compresses_to :: "zlib \<Rightarrow> node \<Rightarrow> path \<Rightarrow> bytes \<Rightarrow> bool" where
  "compresses_to z folder p c = (gzip_compress z (read_file folder p) = Inr c)"

text \<open>
  What the blob file holds after the compressed tiles \<open>cs\<close> have been written to a
  fresh stream, one after the other; and whether the file system has room for \<open>k\<close>
  bytes.
\<close>

definition blob_written :: "nat option \<Rightarrow> bytes list \<Rightarrow> bytes" where
  "blob_written room cs = fst (foldl (ofstream_write room) ([], True) cs)"


text \<open>The bytes of the regular file \<open>name\<close> directly inside a folder.\<close>

definition file_bytes :: "string \<Rightarrow> node \<Rightarrow> bytes option" where
  "file_bytes name folder =
     (case folder of
        Dir ok es \<Rightarrow> (case map_of es name of Some (File ok' d) \<Rightarrow> Some d | _ \<Rightarrow> None)
      | _ \<Rightarrow> None)"

text \<open>An entry of the tile folder that is a directory with a name of digits only.\<close>

definition level_dir :: "string \<times> node \<Rightarrow> bool" where
  "level_dir e = (is_directory (snd e) \<and> all_digits (fst e))"

text \<open>
  The tile files of a folder, described rather than collected: the regular files with
  a tile extension (\<open>tile_entry\<close>) among the entries of a directory, for every
  directory among the entries of a level directory of the folder, in the order of
  enumeration. \<open>entries_of\<close> reads the listing of a directory.
\<close>

definition tile_entry :: "string \<times> node \<Rightarrow> bool" where
  "tile_entry e = (is_regular_file (snd e) \<and> is_tile_extension (fst e))"

fun entries_of :: "node \<Rightarrow> (string \<times> node) list" where
  "entries_of (Dir ok es) = es"
| "entries_of n = []"

definition row_tiles :: "path \<Rightarrow> (string \<times> node) list \<Rightarrow> path list" where
  "row_tiles dir tile_entries = map (\<lambda>e. dir @ [fst e]) (filter tile_entry tile_entries)"

definition level_tiles :: "path \<Rightarrow> (string \<times> node) list \<Rightarrow> path list" where
  "level_tiles dir y_entries =
     concat (map (\<lambda>e. row_tiles (dir @ [fst e]) (entries_of (snd e)))
               (filter (\<lambda>e. is_directory (snd e)) y_entries))"

definition folder_tiles :: "(string \<times> node) list \<Rightarrow> path list" where
  "folder_tiles level_entries =
     concat (map (\<lambda>e. level_tiles [fst e] (entries_of (snd e))) (filter level_dir level_entries))"

text \<open>
  The same as a predicate on paths: \<open>level/row/file\<close> where \<open>level\<close> is a directory of
  the folder with a name of digits only, \<open>row\<close> is any directory in it, and \<open>file\<close> is a
  regular file in that with extension \<open>.png\<close>, \<open>.jpg\<close> or \<open>.jpeg\<close> in any case.
\<close>

definition qualifying :: "(string \<times> node) list \<Rightarrow> path \<Rightarrow> bool" where
  "qualifying level_entries p =
     (\<exists>level ln row rn file fn.
        p = [level, row, file] \<and>
        (level, ln) \<in> set level_entries \<and> is_directory ln \<and> all_digits level \<and>
        (row, rn) \<in> set (entries_of ln) \<and> is_directory rn \<and>
        (file, fn) \<in> set (entries_of rn) \<and> is_regular_file fn \<and> is_tile_extension file)"

text \<open>A tree of a real file system: no directory lists a name twice.\<close>

fun wf_names :: "node \<Rightarrow> bool" where
  "wf_names (Dir ok es) = (distinct (map fst es) \<and> list_all (\<lambda>e. wf_names (snd e)) es)"
| "wf_names n = True"

text \<open>
  What holds in every state the loop can reach: a running job still has its future in
  the vector, the vector never holds more than \<open>n_threads\<close> futures, and it holds
  fewer whenever the main thread is not waiting on the front.
\<close>

definition sched_inv :: "nat \<Rightarrow> Sched \<Rightarrow> bool" where
  "sched_inv n_threads s =
     (running s \<subseteq> set (futures s) \<and>
      length (futures s) \<le> n_threads \<and>
      (at s \<noteq> AtWait \<longrightarrow> length (futures s) < n_threads) \<and>
      (at s = AtWait \<longrightarrow> futures s \<noteq> []))"

text \<open>
  When discovery and cleanup go through. \<open>can_open\<close>: a \<open>directory_iterator\<close> can be
  constructed on the node. \<open>rows_open\<close>: every directory among the entries of a level
  can be opened. \<open>levels_open\<close>: every level directory of the folder can be opened,
  and so can every directory in it. Entries that the loops pass over are not looked
  at. \<open>cleanup_possible\<close>: every level directory can be removed with all it holds,
  and \<open>blank.png\<close> is not a directory with entries.
\<close>

fun can_open :: "node \<Rightarrow> bool" where
  "can_open (Dir ok es) = ok"
| "can_open n = False"

definition rows_open :: "(string \<times> node) list \<Rightarrow> bool" where
  "rows_open y_entries =
     list_all (\<lambda>e. can_open (snd e)) (filter (\<lambda>e. is_directory (snd e)) y_entries)"

definition levels_open :: "(string \<times> node) list \<Rightarrow> bool" where
  "levels_open level_entries =
     list_all (\<lambda>e. can_open (snd e) \<and> rows_open (entries_of (snd e)))
       (filter level_dir level_entries)"

definition cleanup_possible :: "(string \<times> node) list \<Rightarrow> bool" where
  "cleanup_possible level_entries =
     (list_all (\<lambda>e. removable (snd e)) (filter level_dir level_entries) \<and>
      (case map_of level_entries ''blank.png'' of
         Some (Dir ok (e # es)) \<Rightarrow> False
       | _ \<Rightarrow> True))"

definition creatable :: "string \<Rightarrow> (string \<times> node) list \<Rightarrow> bool" where
  "creatable name es = (map_of es name = None \<or> (\<exists>d. map_of es name = Some (File True d)))"

section \<open>Example inputs\<close>

text \<open>
  A stand-in for zlib that always succeeds and never returns an empty stream, and a
  tile folder as the tiler leaves it, with a directory that is not a level.
\<close>

definition example_zlib :: zlib where
  "example_zlib d = StreamEnd (''GZ'' @ d)"

definition example_tree :: node where
  "example_tree =
     Dir True
       [(''blank.png'', File True ''blank''),
        (''1'', Dir True
           [(''1'', Dir True [(''0.jpg'', File True ''t110'')]),
            (''0'', Dir True [(''1.jpg'', File True ''t101''), (''0.jpg'', File True ''t100'')])]),
        (''notes'', Dir True [(''0'', Dir True [(''0.jpg'', File True ''n'')])]),
        (''0'', Dir True [(''0'', Dir True [(''0.jpg'', File True ''t000'')])])]"

text \<open>The tile folder of the examples with every listing in another order.\<close>

definition example_tree_reordered :: node where
  "example_tree_reordered =
     Dir True
       [(''0'', Dir True [(''0'', Dir True [(''0.jpg'', File True ''t000'')])]),
        (''notes'', Dir True [(''0'', Dir True [(''0.jpg'', File True ''n'')])]),
        (''1'', Dir True
           [(''0'', Dir True [(''0.jpg'', File True ''t100''), (''1.jpg'', File True ''t101'')]),
            (''1'', Dir True [(''0.jpg'', File True ''t110'')])]),
        (''blank.png'', File True ''blank'')]"

text \<open>
  One job with its collaborators: an image of 1000 by 600 pixels whose tiling leaves
  one tile and a \<open>blank.png\<close> in the output folder.
\<close>

definition example_vips :: Vips where
  "example_vips = \<lparr>new_from_file = (\<lambda>p. if p = ''a.png'' then Inr (1000, 600) else Inl (VipsError ''unable to open'')),
     resize_dzsave = (\<lambda>p t c out. Inr (Dir True [(''blank.png'', File True ''blank''), (''0'', Dir True [(''0'', Dir True [(''0.jpg'', File True ''tile'')])])]))\<rparr>"

definition example_config :: Config where
  "example_config = \<lparr>inputs_file = ''inputs.txt'', outputs_file = ''outputs.txt'', tile_size = 512,
     suffix = ''.jpg'', jpeg_quality = 85, threads = 4, keep_tiles = False\<rparr>"

definition example_task :: ImageTask where
  "example_task = \<lparr>input_path = ''a.png'', output_path = ''out/a'', index = 0\<rparr>"

text \<open>A tile folder with entries of every kind that the loops pass over.\<close>

definition example_tree_mixed :: node where
  "example_tree_mixed =
     Dir True
       [(''blank.png'', File True ''blank''),
        (''7'', File True ''seven''),
        (''private'', Dir False []),
        (''pipe'', Other),
        (''0'', Dir True
           [(''readme.txt'', File True ''r''),
            (''thumbs'', Dir True [(''a.PNG'', File True ''A'')]),
            (''0'', Dir True
               [(''0.jpg'', File True ''T''),
                (''0.txt'', File True ''x''),
                (''sub.png'', Dir False [])])])]"

section \<open>Properties of read_tasks\<close>

lemma split_lines_unfold:
  "s \<noteq> [] \<Longrightarrow> split_lines cur s =
     (cur @ takeWhile (\<lambda>c. c \<noteq> newline) s) # split_lines [] (drop 1 (dropWhile (\<lambda>c. c \<noteq> newline) s))"
proof (induction s arbitrary: cur)
  case Nil then show ?case by simp
next
  case (Cons c cs)
  then show ?case by (cases "cs = []") auto
qed

lemma file_lines_getline:
  "file_lines s = (case getline s of None \<Rightarrow> [] | Some (l, r) \<Rightarrow> l # file_lines r)"
  using split_lines_unfold [of s "[]"] by (auto simp: file_lines_def getline_def)

lemma both_nonblank_pair: "both_nonblank (a, b) = (a \<noteq> [] \<and> b \<noteq> [])"
  by (simp add: both_nonblank_def)

lemma read_loop_eq:
  "read_loop a b idx tasks =
     tasks @ number_tasks idx (filter both_nonblank (zip (file_lines a) (file_lines b)))"
proof (induction a b idx tasks rule: read_loop.induct)
  case (1 inputs outputs idx tasks)
  show ?case
  proof (cases "getline inputs")
    case None
    then show ?thesis by (subst read_loop.simps) (simp add: file_lines_getline [of inputs])
  next
    case (Some lr)
    obtain l r where lr: "lr = (l, r)" by (cases lr)
    have fi: "file_lines inputs = l # file_lines r"
      using Some lr by (simp add: file_lines_getline [of inputs])
    show ?thesis
    proof (cases "getline outputs")
      case None
      with Some lr show ?thesis
        by (subst read_loop.simps) (simp add: file_lines_getline [of outputs])
    next
      case Some': (Some lr')
      obtain l' r' where lr': "lr' = (l', r')" by (cases lr')
      have fo: "file_lines outputs = l' # file_lines r'"
        using Some' lr' by (simp add: file_lines_getline [of outputs])
      show ?thesis
      proof (cases "l \<noteq> [] \<and> l' \<noteq> []")
        case True
        have "read_loop inputs outputs idx tasks =
              read_loop r r' (idx + 1)
                (tasks @ [\<lparr>input_path = l, output_path = l', index = idx\<rparr>])"
          using Some lr Some' lr' True by (subst read_loop.simps) simp
        also have "\<dots> = (tasks @ [\<lparr>input_path = l, output_path = l', index = idx\<rparr>]) @
              number_tasks (idx + 1) (filter both_nonblank (zip (file_lines r) (file_lines r')))"
          using Some lr Some' lr' True by (intro "1.IH"(1)) auto
        finally show ?thesis
          using True by (simp add: fi fo both_nonblank_pair)
      next
        case False
        have "read_loop inputs outputs idx tasks = read_loop r r' idx tasks"
          using Some lr Some' lr' False by (subst read_loop.simps) auto
        also have "\<dots> = tasks @
              number_tasks idx (filter both_nonblank (zip (file_lines r) (file_lines r')))"
          using Some lr Some' lr' False by (intro "1.IH"(2)) auto
        finally show ?thesis
          using False by (auto simp add: fi fo both_nonblank_pair)
      qed
    qed
  qed
qed

lemma length_number_tasks: "length (number_tasks idx ps) = length ps"
  by (induction idx ps rule: number_tasks.induct) auto

lemma index_number_tasks: "map index (number_tasks idx ps) = [idx ..< idx + length ps]"
  by (induction idx ps rule: number_tasks.induct) (auto simp: upt_rec)

lemma filter_zip_nonblank:
  assumes "\<forall>l \<in> set xs \<union> set ys. l \<noteq> []"
  shows "filter both_nonblank (zip xs ys) = zip xs ys"
proof (rule filter_True, rule ballI)
  fix p assume p: "p \<in> set (zip xs ys)"
  obtain x y where xy: "p = (x, y)" by (cases p)
  with p have "x \<in> set xs" "y \<in> set ys"
    by (auto dest: set_zip_leftD set_zip_rightD)
  with assms xy show "both_nonblank p"
    by (auto simp: both_nonblank_pair)
qed

text \<open>
  Claim C8. When both files open, the tasks are exactly the pairs of lines at equal
  positions, up to the end of the shorter file, without the pairs that have an empty
  line on either side, and numbered from 0 in that order. When no line is empty, the
  number of tasks is the number of lines of the shorter file (3 for files of 5 and 3
  lines).
\<close>

theorem read_tasks_pairs_lines:
  assumes "open_file input_file = Some a" and "open_file output_file = Some b"
  shows "\<exists>tasks. read_tasks open_file input_file output_file = Inr tasks \<and>
           tasks = number_tasks 0 (filter both_nonblank (zip (file_lines a) (file_lines b))) \<and>
           map index tasks = [0 ..< length tasks] \<and>
           ((\<forall>l \<in> set (file_lines a) \<union> set (file_lines b). l \<noteq> []) \<longrightarrow>
              length tasks = min (length (file_lines a)) (length (file_lines b)))"
proof -
  let ?ps = "filter both_nonblank (zip (file_lines a) (file_lines b))"
  have r: "read_tasks open_file input_file output_file = Inr (number_tasks 0 ?ps)"
    using assms by (simp add: read_tasks_def read_loop_eq)
  have i: "map index (number_tasks 0 ?ps) = [0 ..< length (number_tasks 0 ?ps)]"
    by (simp add: index_number_tasks length_number_tasks)
  have l: "length (number_tasks 0 ?ps) = min (length (file_lines a)) (length (file_lines b))"
    if "\<forall>l \<in> set (file_lines a) \<union> set (file_lines b). l \<noteq> []"
    using filter_zip_nonblank [OF that] by (simp add: length_number_tasks)
  from r i l show ?thesis by blast
qed

theorem read_tasks_pairs_lines_witness:
  "\<exists>tasks. read_tasks
      (map_of [(''inputs.txt'', ''a.png'' @ [newline] @ ''b.png'' @ [newline] @ ''c.png'' @ [newline]
                  @ ''d.png'' @ [newline] @ ''e.png'' @ [newline]),
               (''outputs.txt'', ''out/a'' @ [newline] @ ''out/b'' @ [newline] @ ''out/c'')])
      ''inputs.txt'' ''outputs.txt'' = Inr tasks \<and>
     tasks = [\<lparr>input_path = ''a.png'', output_path = ''out/a'', index = 0\<rparr>,
              \<lparr>input_path = ''b.png'', output_path = ''out/b'', index = 1\<rparr>,
              \<lparr>input_path = ''c.png'', output_path = ''out/c'', index = 2\<rparr>] \<and>
     length tasks = 3"
  using read_tasks_pairs_lines [of
      "map_of [(''inputs.txt'', ''a.png'' @ [newline] @ ''b.png'' @ [newline] @ ''c.png'' @ [newline]
                  @ ''d.png'' @ [newline] @ ''e.png'' @ [newline]),
               (''outputs.txt'', ''out/a'' @ [newline] @ ''out/b'' @ [newline] @ ''out/c'')]"
      "''inputs.txt''"
      "''a.png'' @ [newline] @ ''b.png'' @ [newline] @ ''c.png'' @ [newline]
                  @ ''d.png'' @ [newline] @ ''e.png'' @ [newline]"
      "''outputs.txt''"
      "''out/a'' @ [newline] @ ''out/b'' @ [newline] @ ''out/c''"]
  by (simp add: file_lines_def newline_def both_nonblank_pair)

section \<open>Properties of next_power_of_2 and of the reported size\<close>

lemma power_loop_pow2:
  "k \<le> 30 \<Longrightarrow> n \<le> 2 ^ 30 \<Longrightarrow> k = 0 \<or> 2 ^ (k - 1) < n \<Longrightarrow>
   \<exists>m. power_loop (2 ^ k) n = Some (2 ^ m) \<and> n \<le> 2 ^ m \<and> (m = 0 \<or> 2 ^ (m - 1) < n)"
proof (induction "30 - k" arbitrary: k)
  case 0
  then have k: "k = 30" by simp
  with 0 have "\<not> (2::int) ^ k < n" by simp
  then have "power_loop (2 ^ k) n = Some (2 ^ k)"
    by (subst power_loop.simps) simp
  with 0 k show ?case by (intro exI [of _ k]) auto
next
  case (Suc d)
  show ?case
  proof (cases "(2::int) ^ k < n")
    case False
    then have "power_loop (2 ^ k) n = Some (2 ^ k)"
      by (subst power_loop.simps) simp
    with False Suc.prems show ?thesis by (intro exI [of _ k]) auto
  next
    case True
    from Suc.hyps(2) have klt: "k < 30" by simp
    then have "(2::int) ^ (Suc k) \<le> 2 ^ 30"
      by (intro power_increasing) auto
    then have le: "(2::int) ^ k * 2 \<le> 1073741824" by simp
    have pos: "(0::int) < 2 ^ k" by simp
    have rng: "\<not> ((2::int) ^ k * 2 < INT_MIN \<or> INT_MAX < 2 ^ k * 2)"
      using le pos unfolding INT_MIN_def INT_MAX_def by linarith
    have step: "power_loop (2 ^ k) n = power_loop (2 ^ Suc k) n"
      using True rng by (subst power_loop.simps) (simp add: mult.commute)
    have "\<exists>m. power_loop (2 ^ Suc k) n = Some (2 ^ m) \<and> n \<le> 2 ^ m \<and> (m = 0 \<or> 2 ^ (m - 1) < n)"
      using Suc.hyps(2) klt Suc.prems(2) True by (intro Suc.hyps(1)) auto
    with step show ?thesis by simp
  qed
qed

lemma next_power_of_2_least:
  assumes "1 \<le> n" "n \<le> 2 ^ 30"
  shows "\<exists>p. next_power_of_2 n = Some p \<and> least_power_of_2_ge n p"
proof -
  from power_loop_pow2 [of 0 n] assms obtain m where
    m: "power_loop 1 n = Some (2 ^ m)" "n \<le> 2 ^ m" "m = 0 \<or> 2 ^ (m - 1) < n"
    by auto
  have "(2::int) ^ m \<le> 2 ^ j" if "n \<le> 2 ^ j" for j
  proof (cases "m = 0")
    case True then show ?thesis by simp
  next
    case False
    with m(3) that have "(2::int) ^ (m - 1) < 2 ^ j" by linarith
    then have "m - 1 < j" by (rule power_less_imp_less_exp [rotated]) simp
    with False have "m \<le> j" by simp
    then show ?thesis by (simp add: power_increasing)
  qed
  then have "least_power_of_2_ge n (2 ^ m)"
    using m(2) by (auto simp: least_power_of_2_ge_def)
  with m(1) assms show ?thesis by (auto simp: next_power_of_2_def)
qed

lemma power_loop_overflow:
  "k \<le> 30 \<Longrightarrow> 2 ^ 30 < n \<Longrightarrow> power_loop (2 ^ k) n = None"
proof (induction "30 - k" arbitrary: k)
  case 0
  then have k: "k = 30" by simp
  with 0 show ?case
    by (subst power_loop.simps) (simp add: INT_MAX_def INT_MIN_def)
next
  case (Suc d)
  then have klt: "k < 30" by simp
  then have "(2::int) ^ (Suc k) \<le> 2 ^ 30"
    by (intro power_increasing) auto
  then have le: "(2::int) ^ k * 2 \<le> 1073741824" by simp
  have pos: "(0::int) < 2 ^ k" by simp
  have rng: "\<not> ((2::int) ^ k * 2 < INT_MIN \<or> INT_MAX < 2 ^ k * 2)"
    using le pos unfolding INT_MIN_def INT_MAX_def by linarith
  have lt: "(2::int) ^ k < n" using le pos Suc.prems(2) by simp
  have "power_loop (2 ^ k) n = power_loop (2 ^ Suc k) n"
    using lt rng by (subst power_loop.simps) (simp add: mult.commute)
  also have "\<dots> = None"
    using Suc.hyps(2) klt Suc.prems(2) by (intro Suc.hyps(1)) auto
  finally show ?case .
qed

lemma next_power_of_2_Some:
  assumes "next_power_of_2 n = Some p"
  shows "least_power_of_2_ge n p"
proof -
  consider "n \<le> 0" | "1 \<le> n" "n \<le> 2 ^ 30" | "2 ^ 30 < n" by linarith
  then show ?thesis
  proof cases
    case 1
    with assms have "p = 1" by (simp add: next_power_of_2_def)
    moreover have "(1::int) = 2 ^ 0" by simp
    ultimately show ?thesis
      using 1 unfolding least_power_of_2_ge_def by (metis one_le_power one_le_numeral order_trans zero_le_one)
  next
    case 2
    with next_power_of_2_least [of n] assms show ?thesis by auto
  next
    case 3
    with power_loop_overflow [of 0 n] assms show ?thesis
      by (simp add: next_power_of_2_def)
  qed
qed

lemma process_image_success:
  assumes "process_image vips room z task config cc = Some (res, cc', out)" and "success res"
  shows "\<exists>w h t. new_from_file vips (input_path task) = Inr (w, h) \<and>
           next_power_of_2 (max w h) = Some t \<and> width res = t \<and> height res = t"
  using assms
  by (auto simp: process_image_def Let_def split: sum.splits option.splits prod.splits)

lemma npo2_1000: "next_power_of_2 1000 = Some 1024" by code_simp

lemma example_run:
  "\<exists>res out. process_image example_vips None (\<lambda>d. StreamEnd d) example_task example_config 0
       = Some (res, 1, Some out) \<and>
     success res \<and> width res = 1024 \<and> height res = 1024"
  by (simp add: process_image_def example_vips_def example_task_def example_config_def npo2_1000
      merge_tiles_to_binary_def open_ofstream_def directory_iterator_def
      all_digits_def isdigit_def is_tile_extension_def extension_def tolower_def path_string_def
      read_file_def gzip_compress_def SIZE_MOD_def
      remove_blank_png_def write_metadata_def)

text \<open>
  Claim C9, as amended. \<open>next_power_of_2\<close> returns 1 for an argument that is not
  positive, and the least power of two that is at least \<open>n\<close> for every \<open>n\<close> from 1 to
  \<open>2 ^ 30\<close>. Whenever \<open>process_image\<close> returns a result with \<open>success\<close> set, the
  reported width and height are equal and are the least power of two that is at
  least the larger dimension of the image.
\<close>

theorem next_power_of_2_bounded:
  "(m \<le> 0 \<longrightarrow> next_power_of_2 m = Some 1) \<and>
   (1 \<le> n \<and> n \<le> 2 ^ 30 \<longrightarrow> (\<exists>p. next_power_of_2 n = Some p \<and> least_power_of_2_ge n p)) \<and>
   (process_image vips room z task config cc = Some (res, cc', out) \<and> success res \<and>
      new_from_file vips (input_path task) = Inr (w, h) \<longrightarrow>
      width res = height res \<and> least_power_of_2_ge (max w h) (width res))"
proof (intro conjI impI)
  assume "m \<le> 0" then show "next_power_of_2 m = Some 1"
    by (simp add: next_power_of_2_def)
next
  assume "1 \<le> n \<and> n \<le> 2 ^ 30"
  then show "\<exists>p. next_power_of_2 n = Some p \<and> least_power_of_2_ge n p"
    using next_power_of_2_least [of n] by simp
next
  assume a: "process_image vips room z task config cc = Some (res, cc', out) \<and> success res \<and>
      new_from_file vips (input_path task) = Inr (w, h)"
  with process_image_success [of vips room z task config cc res cc' out]
  obtain t where t: "next_power_of_2 (max w h) = Some t" "width res = t" "height res = t"
    by auto
  then show "width res = height res" by simp
  from t next_power_of_2_Some [of "max w h" t]
  show "least_power_of_2_ge (max w h) (width res)" by simp
qed

theorem next_power_of_2_bounded_witness:
  "next_power_of_2 0 = Some 1 \<and>
   (\<exists>p. next_power_of_2 1000 = Some p \<and> least_power_of_2_ge 1000 p) \<and>
   (\<exists>res cc out. process_image example_vips None (\<lambda>d. StreamEnd d) example_task example_config 0
        = Some (res, cc, out) \<and> success res \<and>
      width res = height res \<and> least_power_of_2_ge (max 1000 600) (width res))"
proof -
  from example_run obtain res out where
    r: "process_image example_vips None (\<lambda>d. StreamEnd d) example_task example_config 0
          = Some (res, 1, Some out)" "success res"
    by blast
  have f: "new_from_file example_vips (input_path example_task) = Inr (1000, 600)"
    by (simp add: example_vips_def example_task_def)
  from r f next_power_of_2_bounded [of 0 1000 example_vips None "\<lambda>d. StreamEnd d" example_task
      example_config 0 res 1 "Some out" 1000 600]
  show ?thesis by auto
qed

text \<open>
  Claim C9 as stated fails above \<open>2 ^ 30\<close>: for \<open>n = 2 ^ 30 + 1\<close> the next doubling
  leaves the range of \<open>int\<close> and no result is defined.
\<close>

theorem next_power_of_2_overflow:
  "\<not> (\<exists>p. next_power_of_2 1073741825 = Some p \<and> least_power_of_2_ge 1073741825 p)"
proof -
  have "next_power_of_2 1073741825 = None" by code_simp
  then show ?thesis by simp
qed

section \<open>Offsets and sizes written by merge_tiles_to_binary\<close>

text \<open>The definitions that running \<open>merge_tiles_to_binary\<close> on a concrete folder unfolds.\<close>

lemmas walk_defs =
  merge_tiles_to_binary_def open_ofstream_def directory_iterator_def
  all_digits_def isdigit_def is_tile_extension_def extension_def tolower_def path_string_def
  read_file_def gzip_compress_def tile_key_def filename_def parent_path_def stem_def SIZE_MOD_def
  remove_blank_png_def

lemmas eval_defs = walk_defs ofstream_write_def

lemmas tiles_defs =
  folder_tiles_def level_tiles_def row_tiles_def level_dir_def tile_entry_def
  all_digits_def isdigit_def is_tile_extension_def extension_def tolower_def

lemma pack_tiles_Inr:
  "pack_tiles room z bn folder ps st off tm = Inr (st', off', tm') \<Longrightarrow>
   \<exists>cs. list_all2 (compresses_to z folder) ps cs \<and>
        st' = foldl (ofstream_write room) st cs \<and>
        tm' = tm @ entries_from bn off (zip ps cs)"
proof (induction ps arbitrary: st off tm)
  case Nil
  then show ?case by simp
next
  case (Cons p ps)
  from Cons.prems obtain c where
    c: "gzip_compress z (read_file folder p) = Inr c" and
    r: "pack_tiles room z bn folder ps (ofstream_write room st c) ((off + length c) mod SIZE_MOD)
          (tm @ [\<lparr>key = tile_key p, binary_name = bn, start_offset = off, size' = length c\<rparr>])
        = Inr (st', off', tm')"
    by (auto simp: Let_def split: sum.splits)
  from Cons.IH [OF r] obtain cs where
    cs: "list_all2 (compresses_to z folder) ps cs"
      "st' = foldl (ofstream_write room) (ofstream_write room st c) cs"
      "tm' = (tm @ [\<lparr>key = tile_key p, binary_name = bn, start_offset = off, size' = length c\<rparr>])
          @ entries_from bn ((off + length c) mod SIZE_MOD) (zip ps cs)"
    by blast
  from c have "compresses_to z folder p c" by (simp add: compresses_to_def)
  with cs show ?case
    by (intro exI [of _ "c # cs"]) simp
qed

lemma pack_tiles_Inr_conv:
  "list_all2 (compresses_to z folder) ps cs \<Longrightarrow>
   \<exists>off'. pack_tiles room z bn folder ps st off tm =
     Inr (foldl (ofstream_write room) st cs, off', tm @ entries_from bn off (zip ps cs))"
proof (induction ps cs arbitrary: st off tm rule: list_all2_induct)
  case Nil
  then show ?case by simp
next
  case (Cons p ps c cs)
  have "gzip_compress z (read_file folder p) = Inr c"
    using Cons.hyps(1) by (simp add: compresses_to_def)
  with Cons.IH [of "ofstream_write room st c" "(off + length c) mod SIZE_MOD"
      "tm @ [\<lparr>key = tile_key p, binary_name = bn, start_offset = off, size' = length c\<rparr>]"]
  show ?case by simp
qed

text \<open>
  What a stream holds after a series of writes: everything, or as much of it as the
  file system has room for.
\<close>

lemma take_take_append: "take n (take n xs @ ys) = take n (xs @ ys)"
  by (cases "n \<le> length xs") (auto simp: min_def)








lemma key_entries_from:
  "map key (entries_from bn off pcs) = map (\<lambda>pc. tile_key (fst pc)) pcs"
  by (induction bn off pcs rule: entries_from.induct) auto

lemma length_entries_from: "length (entries_from bn off pcs) = length pcs"
  by (induction bn off pcs rule: entries_from.induct) auto





lemma open_ofstream_Some:
  assumes "open_ofstream name folder = Some folder1"
  obtains es where "folder = Dir True es"
    and "map_of es name = None \<or> (\<exists>d. map_of es name = Some (File True d))"
    and "folder1 = Dir True (AList.update name (File True []) es)"
  using assms
  by (auto simp: open_ofstream_def split: node.splits bool.splits option.splits)

lemma directory_iterator_Inr:
  "directory_iterator p n = Inr es \<longleftrightarrow> n = Dir True es"
  by (auto simp: directory_iterator_def split: node.splits bool.splits)

lemma merge_Inr:
  assumes "merge_tiles_to_binary room z tf bn keep folder = Inr (tm, folder')"
  obtains es tile_files cs where
    "folder = Dir True es"
    "map_of es bn = None \<or> (\<exists>d. map_of es bn = Some (File True d))"
    "collect_levels tf (AList.update bn (File True []) es) [] = Inr tile_files"
    "list_all2 (compresses_to z (Dir True (AList.update bn (File True []) es))) (sort tile_files) cs"
    "tm = entries_from bn 0 (zip (sort tile_files) cs)"
    "keep \<Longrightarrow> folder' = Dir True (AList.update bn (File True (blob_written room cs)) es)"
    "\<not> keep \<Longrightarrow> \<exists>es3 es4.
       remove_level_dirs tf (AList.update bn (File True (blob_written room cs)) es) = Inr es3 \<and>
       remove_blank_png tf es3 = Inr es4 \<and> folder' = Dir True es4"
proof -
  from assms obtain folder1 where o: "open_ofstream bn folder = Some folder1"
    by (auto simp: merge_tiles_to_binary_def split: option.splits)
  from open_ofstream_Some [OF o] obtain es where
    es: "folder = Dir True es"
      "map_of es bn = None \<or> (\<exists>d. map_of es bn = Some (File True d))"
      "folder1 = Dir True (AList.update bn (File True []) es)"
    by blast
  let ?es1 = "AList.update bn (File True []) es"
  have di: "directory_iterator tf folder1 = Inr ?es1"
    using es(3) by (simp add: directory_iterator_Inr)
  from assms o di obtain tile_files where
    c: "collect_levels tf ?es1 [] = Inr tile_files"
    by (auto simp: merge_tiles_to_binary_def split: sum.splits)
  from assms o di c obtain r where
    p0: "pack_tiles room z bn folder1 (sort tile_files) ([], True) 0 [] = Inr r"
    by (cases "pack_tiles room z bn folder1 (sort tile_files) ([], True) 0 []")
       (auto simp: merge_tiles_to_binary_def)
  obtain st off tm0 where r: "r = (st, off, tm0)" by (cases r)
  note p = p0 [unfolded r]
  define blob where "blob = fst st"
  from pack_tiles_Inr [OF p] obtain cs where
    cs0: "list_all2 (compresses_to z folder1) (sort tile_files) cs"
      "st = foldl (ofstream_write room) ([], True) cs"
      "tm0 = entries_from bn 0 (zip (sort tile_files) cs)"
    by auto
  from cs0(2) have "blob = blob_written room cs"
    by (simp add: blob_written_def blob_def)
  note cs = cs0(1) this cs0(3)
  have upd: "AList.update bn (File True blob) ?es1 = AList.update bn (File True blob) es"
    by (simp add: update_last)
  have tm: "tm = tm0"
    using assms o di c p
    by (auto simp: merge_tiles_to_binary_def Let_def split: sum.splits if_splits)
  have k: "folder' = Dir True (AList.update bn (File True (blob_written room cs)) es)" if keep
    using assms o di c p that cs(2) upd blob_def
    by (auto simp: merge_tiles_to_binary_def Let_def split: sum.splits)
  have nk: "\<exists>es3 es4.
       remove_level_dirs tf (AList.update bn (File True (blob_written room cs)) es) = Inr es3 \<and>
       remove_blank_png tf es3 = Inr es4 \<and> folder' = Dir True es4" if "\<not> keep"
    using assms o di c p that cs(2) upd blob_def
    by (auto simp: merge_tiles_to_binary_def Let_def split: sum.splits)
  from that [OF es(1) es(2) c] cs tm k nk es(3) show thesis by blast
qed

lemma remove_level_dirs_Inr:
  "remove_level_dirs tf es = Inr es' \<Longrightarrow> es' = filter (\<lambda>e. \<not> level_dir e) es"
proof (induction es arbitrary: es')
  case Nil then show ?case by simp
next
  case (Cons e es)
  obtain name n where e: "e = (name, n)" by (cases e)
  show ?case
  proof (cases "level_dir e")
    case True
    with Cons.prems e have "remove_level_dirs tf es = Inr es'"
      by (auto simp: level_dir_def split: if_splits)
    with Cons.IH True show ?thesis by simp
  next
    case False
    with Cons.prems e obtain r where r: "remove_level_dirs tf es = Inr r" "es' = e # r"
      by (cases "remove_level_dirs tf es") (auto simp: level_dir_def split: if_splits)
    with Cons.IH False show ?thesis by simp
  qed
qed

lemma remove_blank_png_Inr:
  "remove_blank_png tf es = Inr es' \<Longrightarrow> es' = AList.delete ''blank.png'' es"
proof -
  assume a: "remove_blank_png tf es = Inr es'"
  show ?thesis
  proof (cases "map_of es ''blank.png''")
    case None
    then have "AList.delete ''blank.png'' es = es"
      by (simp add: delete_id map_of_eq_None_iff)
    with a None show ?thesis by (simp add: remove_blank_png_def)
  next
    case (Some n)
    with a show ?thesis
      by (auto simp: remove_blank_png_def split: node.splits list.splits)
  qed
qed

lemma map_of_filter_keep:
  "map_of es k = Some v \<Longrightarrow> P (k, v) \<Longrightarrow> map_of (filter P es) k = Some v"
  by (induction es) (auto split: if_splits)

lemma file_bytes_after_cleanup:
  assumes "remove_level_dirs tf (AList.update bn (File True blob) es) = Inr es3"
    and "remove_blank_png tf es3 = Inr es4" and "bn \<noteq> ''blank.png''"
  shows "map_of es4 bn = Some (File True blob)"
proof -
  have "map_of (AList.update bn (File True blob) es) bn = Some (File True blob)"
    by (simp add: update_conv')
  then have "map_of es3 bn = Some (File True blob)"
    unfolding remove_level_dirs_Inr [OF assms(1)]
    by (rule map_of_filter_keep) (simp add: level_dir_def)
  then show ?thesis
    unfolding remove_blank_png_Inr [OF assms(2)] using assms(3)
    by (simp add: delete_conv')
qed



lemma example_merge:
  "merge_tiles_to_binary None example_zlib ''out'' ''tiles_000.binz'' False example_tree =
     Inr ([\<lparr>key = ''0_0_0'', binary_name = ''tiles_000.binz'', start_offset = 0, size' = 6\<rparr>,
           \<lparr>key = ''1_0_0'', binary_name = ''tiles_000.binz'', start_offset = 6, size' = 6\<rparr>,
           \<lparr>key = ''1_0_1'', binary_name = ''tiles_000.binz'', start_offset = 12, size' = 6\<rparr>,
           \<lparr>key = ''1_1_0'', binary_name = ''tiles_000.binz'', start_offset = 18, size' = 6\<rparr>],
          Dir True
            [(''notes'', Dir True [(''0'', Dir True [(''0.jpg'', File True ''n'')])]),
             (''tiles_000.binz'', File True ''GZt000GZt100GZt101GZt110'')])"
  by (simp add: example_tree_def example_zlib_def eval_defs)



section \<open>A tile that cannot be opened\<close>

text \<open>
  Claim C3 says that a tile that cannot be opened fails the whole job. The code does
  not test the tile's stream: for every compressor that succeeds, a folder whose only
  tile cannot be opened is packed without an error, and the tile's entry holds the
  compression of no data at all.
\<close>

theorem unreadable_tile_is_packed_empty:
  "merge_tiles_to_binary room (\<lambda>d. StreamEnd (g d)) ''out'' ''tiles_000.binz'' True
     (Dir True [(''0'', Dir True [(''0'', Dir True [(''0.png'', File False ''PNG'')])])]) =
   Inr ([\<lparr>key = ''0_0_0'', binary_name = ''tiles_000.binz'', start_offset = 0,
           size' = length (g [])\<rparr>],
        Dir True [(''0'', Dir True [(''0'', Dir True [(''0.png'', File False ''PNG'')])]),
                  (''tiles_000.binz'', File True (blob_written room [g []]))])"
  by (simp add: walk_defs blob_written_def)

section \<open>A failure after tiling in process_image\<close>

text \<open>
  Claim C2 says that a failure of any of the three steps gives a result with
  \<open>success = false\<close>. The code sets \<open>success\<close> before packing: when packing throws
  (here zlib fails to initialise), the result carries the message and \<open>success = true\<close>,
  while \<open>completed_count\<close> stays as it was.
\<close>

theorem failed_merge_reports_success:
  "process_image example_vips room (\<lambda>d. InitFailed) example_task example_config 0 =
     Some (\<lparr>result_index = 0, success = True,
             error_message = ''Failed to initialize gzip compression'',
             width = 1024, height = 1024\<rparr>, 0, None)"
  by (simp add: process_image_def example_vips_def example_task_def example_config_def npo2_1000
      eval_defs)

section \<open>Keys of tiles with equal stems\<close>

text \<open>
  Claim C10. Two tiles of one row with the same stem and different extensions
  (\<open>2.png\<close> and \<open>2.jpg\<close>) give two entries with the same key \<open>0_0_2\<close>, for every
  compressor that succeeds, and \<open>write_metadata\<close> writes both: the key occurs twice in
  the descriptor.
\<close>

theorem duplicate_keys_for_equal_stems:
  "\<exists>e1 e2 folder' final pre mid post.
     merge_tiles_to_binary room (\<lambda>d. StreamEnd (g d)) ''out'' ''tiles_000.binz'' True
       (Dir True [(''0'', Dir True [(''0'', Dir True
          [(''2.png'', File True ''P''), (''2.jpg'', File True ''J'')])])])
       = Inr ([e1, e2], folder') \<and>
     key e1 = ''0_0_2'' \<and> key e2 = ''0_0_2'' \<and>
     write_metadata ''out'' w h ts [e1, e2] folder' = Inr final \<and>
     file_bytes ''metadata.json'' final =
       Some (pre @ dquote @ ''0_0_2'' @ dquote @ '': {'' @ mid @
             dquote @ ''0_0_2'' @ dquote @ '': {'' @ post)"
proof -
  let ?e1 = "\<lparr>key = ''0_0_2'', binary_name = ''tiles_000.binz'', start_offset = 0,
               size' = length (g ''J'')\<rparr>"
  let ?e2 = "\<lparr>key = ''0_0_2'', binary_name = ''tiles_000.binz'',
               start_offset = length (g ''J'') mod SIZE_MOD, size' = length (g ''P'')\<rparr>"
  let ?tree = "[(''0'', Dir True [(''0'', Dir True
          [(''2.png'', File True ''P''), (''2.jpg'', File True ''J'')])])]"
  let ?f = "Dir True (?tree @
              [(''tiles_000.binz'', File True (blob_written room [g ''J'', g ''P'']))])"
  let ?final = "Dir True (?tree @
              [(''tiles_000.binz'', File True (blob_written room [g ''J'', g ''P''])),
                  (''metadata.json'', File True (metadata_text w h ts [?e1, ?e2]))])"
  have m: "merge_tiles_to_binary room (\<lambda>d. StreamEnd (g d)) ''out'' ''tiles_000.binz'' True
       (Dir True ?tree) = Inr ([?e1, ?e2], ?f)"
    by (simp add: walk_defs blob_written_def Let_def)
  have w: "write_metadata ''out'' w h ts [?e1, ?e2] ?f = Inr ?final"
    by (simp add: write_metadata_def open_ofstream_def)
  have fb: "file_bytes ''metadata.json'' ?final = Some (metadata_text w h ts [?e1, ?e2])"
    by (simp add: file_bytes_def)
  let ?pre = "''{'' @ [newline] @
     ''  '' @ dquote @ ''width'' @ dquote @ '': '' @ show_int w @ '','' @ [newline] @
     ''  '' @ dquote @ ''height'' @ dquote @ '': '' @ show_int h @ '','' @ [newline] @
     ''  '' @ dquote @ ''tile_size'' @ dquote @ '': '' @ show_int ts @ '','' @ [newline] @
     ''  '' @ dquote @ ''tiles'' @ dquote @ '': {'' @ [newline] @ ''    ''"
  let ?rest1 = "[newline] @
     ''      '' @ dquote @ ''binaryName'' @ dquote @ '': '' @ dquote @ ''tiles_000.binz'' @ dquote @ '','' @ [newline] @
     ''      '' @ dquote @ ''startOffset'' @ dquote @ '': '' @ show_nat 0 @ '','' @ [newline] @
     ''      '' @ dquote @ ''size'' @ dquote @ '': '' @ show_nat (length (g ''J'')) @ [newline] @
     ''    }'' @ '','' @ [newline] @ ''    ''"
  let ?rest2 = "[newline] @
     ''      '' @ dquote @ ''binaryName'' @ dquote @ '': '' @ dquote @ ''tiles_000.binz'' @ dquote @ '','' @ [newline] @
     ''      '' @ dquote @ ''startOffset'' @ dquote @ '': '' @ show_nat (length (g ''J'') mod SIZE_MOD) @ '','' @ [newline] @
     ''      '' @ dquote @ ''size'' @ dquote @ '': '' @ show_nat (length (g ''P'')) @ [newline] @
     ''    }'' @ [newline] @ ''  }'' @ [newline] @ ''}'' @ [newline]"
  have t: "metadata_text w h ts [?e1, ?e2] =
      ?pre @ dquote @ ''0_0_2'' @ dquote @ '': {'' @ ?rest1 @
      dquote @ ''0_0_2'' @ dquote @ '': {'' @ ?rest2"
    by (simp add: metadata_text_def tile_text_def)
  have fb': "file_bytes ''metadata.json'' ?final =
      Some (?pre @ dquote @ ''0_0_2'' @ dquote @ '': {'' @ ?rest1 @
            dquote @ ''0_0_2'' @ dquote @ '': {'' @ ?rest2)"
    using fb by (simp only: t)
  have k1: "key ?e1 = ''0_0_2''" and k2: "key ?e2 = ''0_0_2''"
    by simp_all
  show ?thesis
    by (intro exI conjI) (rule m k1 k2 w fb')+
qed

section \<open>The folder after packing\<close>

lemma set_update_cases:
  "e \<in> set (AList.update k v al) \<Longrightarrow> e = (k, v) \<or> e \<in> set al"
  by (induction al) (auto split: if_splits)

lemma write_metadata_Inr:
  assumes "write_metadata out w h ts tm (Dir True es) = Inr final"
  shows "final = Dir True (AList.update ''metadata.json'' (File True (metadata_text w h ts tm)) es)"
proof -
  from assms obtain f1 where o: "open_ofstream ''metadata.json'' (Dir True es) = Some f1"
    by (auto simp: write_metadata_def split: option.splits)
  from open_ofstream_Some [OF o] have f1: "f1 = Dir True (AList.update ''metadata.json'' (File True []) es)"
    by auto
  from assms o f1 show ?thesis
    by (simp add: write_metadata_def update_last)
qed

lemma merge_Inr_folder:
  assumes "merge_tiles_to_binary room z tf bn keep folder = Inr (tm, folder')"
  shows "\<exists>es es' blob. folder = Dir True es \<and> folder' = Dir True es' \<and>
     (keep \<longrightarrow> es' = AList.update bn (File True blob) es) \<and>
     (\<not> keep \<longrightarrow> es' = AList.delete ''blank.png''
                       (filter (\<lambda>e. \<not> level_dir e) (AList.update bn (File True blob) es)))"
proof -
  from merge_Inr [OF assms] obtain es cs where
    m: "folder = Dir True es"
      "keep \<Longrightarrow> folder' = Dir True (AList.update bn (File True (blob_written room cs)) es)"
      "\<not> keep \<Longrightarrow> \<exists>es3 es4.
         remove_level_dirs tf (AList.update bn (File True (blob_written room cs)) es) = Inr es3 \<and>
         remove_blank_png tf es3 = Inr es4 \<and> folder' = Dir True es4"
    by metis
  show ?thesis
  proof (cases keep)
    case True
    with m show ?thesis by auto
  next
    case False
    with m(3) obtain es3 es4 where
      r: "remove_level_dirs tf (AList.update bn (File True (blob_written room cs)) es) = Inr es3"
        "remove_blank_png tf es3 = Inr es4" "folder' = Dir True es4"
      by blast
    from remove_level_dirs_Inr [OF r(1)] remove_blank_png_Inr [OF r(2)] r(3) m(1) False
    show ?thesis by auto
  qed
qed

text \<open>
  Claim C6. After \<open>merge_tiles_to_binary\<close> and \<open>write_metadata\<close> have returned, the
  output folder holds the blob and the descriptor. When the tiles are not kept, no
  directory with a name of digits only is left directly in the folder and there is
  no \<open>blank.png\<close>; when they are kept, the folder is what it was, with the blob and
  the descriptor added. The blob's name is neither \<open>blank.png\<close> nor
  \<open>metadata.json\<close> (\<open>process_image\<close> passes \<open>tiles_000.binz\<close>).
\<close>

theorem cleanup_after_packing:
  assumes "merge_tiles_to_binary room z tile_folder bin_name keep folder = Inr (tiles_map, folder')"
    and "write_metadata tile_folder w h ts tiles_map folder' = Inr final"
    and "bin_name \<noteq> ''blank.png''" and "bin_name \<noteq> ''metadata.json''"
  shows "\<exists>es es' blob. folder = Dir True es \<and> final = Dir True es' \<and>
     map_of es' bin_name = Some (File True blob) \<and>
     map_of es' ''metadata.json'' = Some (File True (metadata_text w h ts tiles_map)) \<and>
     (\<not> keep \<longrightarrow> (\<forall>e \<in> set es'. \<not> level_dir e) \<and> map_of es' ''blank.png'' = None) \<and>
     (keep \<longrightarrow> es' = AList.update ''metadata.json'' (File True (metadata_text w h ts tiles_map))
                        (AList.update bin_name (File True blob) es))"
proof -
  let ?meta = "File True (metadata_text w h ts tiles_map)"
  from merge_Inr_folder [OF assms(1)] obtain es es1 blob where
    m: "folder = Dir True es" "folder' = Dir True es1"
      "keep \<longrightarrow> es1 = AList.update bin_name (File True blob) es"
      "\<not> keep \<longrightarrow> es1 = AList.delete ''blank.png''
                       (filter (\<lambda>e. \<not> level_dir e) (AList.update bin_name (File True blob) es))"
    by blast
  from write_metadata_Inr [OF assms(2) [unfolded m(2)]]
  have f: "final = Dir True (AList.update ''metadata.json'' ?meta es1)" .
  let ?es' = "AList.update ''metadata.json'' ?meta es1"
  have b0: "map_of (AList.update bin_name (File True blob) es) bin_name = Some (File True blob)"
    by (simp add: update_conv')
  have b1: "map_of es1 bin_name = Some (File True blob)"
  proof (cases keep)
    case True
    with m(3) b0 show ?thesis by simp
  next
    case False
    have "map_of (filter (\<lambda>e. \<not> level_dir e) (AList.update bin_name (File True blob) es)) bin_name
        = Some (File True blob)"
      using b0 by (rule map_of_filter_keep) (simp add: level_dir_def)
    with False m(4) assms(3) show ?thesis by (simp add: delete_conv')
  qed
  have blob: "map_of ?es' bin_name = Some (File True blob)"
    using b1 assms(4) by (simp add: update_conv')
  have meta: "map_of ?es' ''metadata.json'' = Some ?meta"
    by (simp add: update_conv')
  have clean: "(\<forall>e \<in> set ?es'. \<not> level_dir e) \<and> map_of ?es' ''blank.png'' = None" if "\<not> keep"
  proof
    from that m(4) have es1: "es1 = AList.delete ''blank.png''
        (filter (\<lambda>e. \<not> level_dir e) (AList.update bin_name (File True blob) es))"
      by simp
    show "\<forall>e \<in> set ?es'. \<not> level_dir e"
    proof
      fix e assume "e \<in> set ?es'"
      then consider "e = (''metadata.json'', ?meta)" | "e \<in> set es1"
        by (auto dest: set_update_cases)
      then show "\<not> level_dir e"
      proof cases
        case 1 then show ?thesis by (simp add: level_dir_def)
      next
        case 2 then show ?thesis unfolding es1 by (auto simp: AList.delete_eq)
      qed
    qed
    show "map_of ?es' ''blank.png'' = None"
      unfolding es1 by (simp add: update_conv' delete_conv')
  qed
  from m(1) f blob meta clean m(3) show ?thesis by blast
qed

lemma example_merge_keep:
  "merge_tiles_to_binary None example_zlib ''out'' ''tiles_000.binz'' True
     (Dir True [(''blank.png'', File True ''blank''),
                (''0'', Dir True [(''0'', Dir True [(''0.jpg'', File True ''t000'')])])]) =
     Inr ([\<lparr>key = ''0_0_0'', binary_name = ''tiles_000.binz'', start_offset = 0, size' = 6\<rparr>],
          Dir True
            [(''blank.png'', File True ''blank''),
             (''0'', Dir True [(''0'', Dir True [(''0.jpg'', File True ''t000'')])]),
             (''tiles_000.binz'', File True ''GZt000'')])"
  by (simp add: example_zlib_def eval_defs)

theorem cleanup_after_packing_witness:
  "(\<exists>tiles_map folder' final es'.
      merge_tiles_to_binary None example_zlib ''out'' ''tiles_000.binz'' False example_tree
        = Inr (tiles_map, folder') \<and>
      write_metadata ''out'' 1024 1024 512 tiles_map folder' = Inr final \<and>
      final = Dir True es' \<and>
      map_of es' ''tiles_000.binz'' = Some (File True ''GZt000GZt100GZt101GZt110'') \<and>
      map_of es' ''metadata.json'' = Some (File True (metadata_text 1024 1024 512 tiles_map)) \<and>
      (\<forall>e \<in> set es'. \<not> level_dir e) \<and> map_of es' ''blank.png'' = None \<and>
      map fst es' = [''notes'', ''tiles_000.binz'', ''metadata.json'']) \<and>
   (\<exists>tiles_map folder' final es'.
      merge_tiles_to_binary None example_zlib ''out'' ''tiles_000.binz'' True
        (Dir True [(''blank.png'', File True ''blank''),
                   (''0'', Dir True [(''0'', Dir True [(''0.jpg'', File True ''t000'')])])])
        = Inr (tiles_map, folder') \<and>
      write_metadata ''out'' 1024 1024 512 tiles_map folder' = Inr final \<and>
      final = Dir True es' \<and>
      es' = [(''blank.png'', File True ''blank''),
             (''0'', Dir True [(''0'', Dir True [(''0.jpg'', File True ''t000'')])]),
             (''tiles_000.binz'', File True ''GZt000''),
             (''metadata.json'', File True (metadata_text 1024 1024 512 tiles_map))])"
proof (intro conjI)
  let ?tm = "[\<lparr>key = ''0_0_0'', binary_name = ''tiles_000.binz'', start_offset = 0, size' = 6\<rparr>,
           \<lparr>key = ''1_0_0'', binary_name = ''tiles_000.binz'', start_offset = 6, size' = 6\<rparr>,
           \<lparr>key = ''1_0_1'', binary_name = ''tiles_000.binz'', start_offset = 12, size' = 6\<rparr>,
           \<lparr>key = ''1_1_0'', binary_name = ''tiles_000.binz'', start_offset = 18, size' = 6\<rparr>]"
  let ?f = "Dir True
            [(''notes'', Dir True [(''0'', Dir True [(''0.jpg'', File True ''n'')])]),
             (''tiles_000.binz'', File True ''GZt000GZt100GZt101GZt110'')]"
  let ?es' = "[(''notes'', Dir True [(''0'', Dir True [(''0.jpg'', File True ''n'')])]),
             (''tiles_000.binz'', File True ''GZt000GZt100GZt101GZt110''),
             (''metadata.json'', File True (metadata_text 1024 1024 512 ?tm))]"
  have w: "write_metadata ''out'' 1024 1024 512 ?tm ?f = Inr (Dir True ?es')"
    by (simp add: write_metadata_def open_ofstream_def)
  from cleanup_after_packing [OF example_merge w]
  obtain es es' blob where
    c: "Dir True ?es' = Dir True es'"
      "map_of es' ''tiles_000.binz'' = Some (File True blob)"
      "map_of es' ''metadata.json'' = Some (File True (metadata_text 1024 1024 512 ?tm))"
      "\<not> False \<longrightarrow> (\<forall>e \<in> set es'. \<not> level_dir e) \<and> map_of es' ''blank.png'' = None"
    by auto
  from c(1) have e: "es' = ?es'" by simp
  from c(2,3,4) have
    "map_of ?es' ''tiles_000.binz'' = Some (File True ''GZt000GZt100GZt101GZt110'')"
    "map_of ?es' ''metadata.json'' = Some (File True (metadata_text 1024 1024 512 ?tm))"
    "\<forall>e \<in> set ?es'. \<not> level_dir e" "map_of ?es' ''blank.png'' = None"
    unfolding e by simp_all
  with example_merge w
  show "\<exists>tiles_map folder' final es'.
      merge_tiles_to_binary None example_zlib ''out'' ''tiles_000.binz'' False example_tree
        = Inr (tiles_map, folder') \<and>
      write_metadata ''out'' 1024 1024 512 tiles_map folder' = Inr final \<and>
      final = Dir True es' \<and>
      map_of es' ''tiles_000.binz'' = Some (File True ''GZt000GZt100GZt101GZt110'') \<and>
      map_of es' ''metadata.json'' = Some (File True (metadata_text 1024 1024 512 tiles_map)) \<and>
      (\<forall>e \<in> set es'. \<not> level_dir e) \<and> map_of es' ''blank.png'' = None \<and>
      map fst es' = [''notes'', ''tiles_000.binz'', ''metadata.json'']"
    by (intro exI [of _ ?tm] exI [of _ ?f] exI [of _ "Dir True ?es'"] exI [of _ ?es']) simp
next
  let ?tm = "[\<lparr>key = ''0_0_0'', binary_name = ''tiles_000.binz'', start_offset = 0, size' = 6\<rparr>]"
  let ?es = "[(''blank.png'', File True ''blank''),
             (''0'', Dir True [(''0'', Dir True [(''0.jpg'', File True ''t000'')])])]"
  let ?f = "Dir True (?es @ [(''tiles_000.binz'', File True ''GZt000'')])"
  let ?es' = "?es @ [(''tiles_000.binz'', File True ''GZt000''),
             (''metadata.json'', File True (metadata_text 1024 1024 512 ?tm))]"
  have m: "merge_tiles_to_binary None example_zlib ''out'' ''tiles_000.binz'' True (Dir True ?es)
      = Inr (?tm, ?f)"
    using example_merge_keep by simp
  have w: "write_metadata ''out'' 1024 1024 512 ?tm ?f = Inr (Dir True ?es')"
    by (simp add: write_metadata_def open_ofstream_def)
  from cleanup_after_packing [OF m w]
  obtain es es' blob where
    c: "Dir True ?es = Dir True es" "Dir True ?es' = Dir True es'"
      "map_of es' ''tiles_000.binz'' = Some (File True blob)"
      "True \<longrightarrow> es' = AList.update ''metadata.json'' (File True (metadata_text 1024 1024 512 ?tm))
                        (AList.update ''tiles_000.binz'' (File True blob) es)"
    by auto
  from c(1,2) have e: "es = ?es" "es' = ?es'" by simp_all
  with c(3) have blob: "blob = ''GZt000''" by simp
  from c(4) e blob m w
  show "\<exists>tiles_map folder' final es'.
      merge_tiles_to_binary None example_zlib ''out'' ''tiles_000.binz'' True (Dir True ?es)
        = Inr (tiles_map, folder') \<and>
      write_metadata ''out'' 1024 1024 512 tiles_map folder' = Inr final \<and>
      final = Dir True es' \<and>
      es' = [(''blank.png'', File True ''blank''),
             (''0'', Dir True [(''0'', Dir True [(''0.jpg'', File True ''t000'')])]),
             (''tiles_000.binz'', File True ''GZt000''),
             (''metadata.json'', File True (metadata_text 1024 1024 512 tiles_map))]"
    by (intro exI [of _ ?tm] exI [of _ ?f] exI [of _ "Dir True ?es'"] exI [of _ ?es']) simp
qed

section \<open>Tile discovery\<close>

lemma collect_tiles_eq: "collect_tiles dir es acc = acc @ row_tiles dir es"
  by (induction dir es acc rule: collect_tiles.induct) (auto simp: row_tiles_def tile_entry_def)

lemma collect_rows_Inr:
  "collect_rows tf dir es acc = Inr r \<Longrightarrow> r = acc @ level_tiles dir es"
proof (induction tf dir es acc arbitrary: r rule: collect_rows.induct)
  case (1 tf dir acc)
  then show ?case by (simp add: level_tiles_def)
next
  case (2 tf dir name n es acc)
  show ?case
  proof (cases "is_directory n")
    case False
    with 2 show ?thesis by (simp add: level_tiles_def)
  next
    case True
    with "2.prems" obtain tes where
      d: "directory_iterator (path_string tf (dir @ [name])) n = Inr tes"
      by (auto split: sum.splits)
    then have n: "n = Dir True tes" by (simp add: directory_iterator_Inr)
    from "2.prems" True d
    have "collect_rows tf dir es (collect_tiles (dir @ [name]) tes acc) = Inr r" by simp
    from "2.IH"(2) [OF _ d this] True
    have "r = collect_tiles (dir @ [name]) tes acc @ level_tiles dir es" by simp
    with True n show ?thesis by (simp add: collect_tiles_eq level_tiles_def)
  qed
qed

lemma collect_levels_Inr:
  "collect_levels tf es acc = Inr r \<Longrightarrow> r = acc @ folder_tiles es"
proof (induction tf es acc arbitrary: r rule: collect_levels.induct)
  case (1 tf acc)
  then show ?case by (simp add: folder_tiles_def)
next
  case (2 tf name n es acc)
  show ?case
  proof (cases "level_dir (name, n)")
    case False
    then have "collect_levels tf ((name, n) # es) acc = collect_levels tf es acc"
      by (auto simp: level_dir_def)
    with "2.prems" have c: "collect_levels tf es acc = Inr r" by simp
    have "r = acc @ folder_tiles es"
    proof (cases "is_directory n")
      case True
      with False have "\<not> all_digits name" by (simp add: level_dir_def)
      from "2.IH"(2) [OF _ this c] True show ?thesis by simp
    next
      case False
      from "2.IH"(1) [OF this c] show ?thesis .
    qed
    with False show ?thesis by (simp add: folder_tiles_def)
  next
    case True
    then have dir: "is_directory n" and dig: "all_digits name" by (simp_all add: level_dir_def)
    with "2.prems" obtain yes where
      d: "directory_iterator (path_string tf [name]) n = Inr yes"
      by (auto split: sum.splits)
    then have n: "n = Dir True yes" by (simp add: directory_iterator_Inr)
    from "2.prems" dir dig d obtain acc' where
      c: "collect_rows tf [name] yes acc = Inr acc'"
      by (auto split: sum.splits)
    from "2.prems" dir dig d c have "collect_levels tf es acc' = Inr r" by simp
    from "2.IH"(3) [OF _ _ d c this] dir dig have "r = acc' @ folder_tiles es" by simp
    with collect_rows_Inr [OF c] True n show ?thesis by (simp add: folder_tiles_def)
  qed
qed

lemma set_folder_tiles: "set (folder_tiles es) = {p. qualifying es p}"
proof (intro set_eqI iffI)
  fix p assume "p \<in> set (folder_tiles es)"
  then obtain le where le: "le \<in> set es" "level_dir le"
      "p \<in> set (level_tiles [fst le] (entries_of (snd le)))"
    by (auto simp: folder_tiles_def)
  then obtain re where re: "re \<in> set (entries_of (snd le))" "is_directory (snd re)"
      "p \<in> set (row_tiles [fst le, fst re] (entries_of (snd re)))"
    by (auto simp: level_tiles_def)
  then obtain fe where fe: "fe \<in> set (entries_of (snd re))" "tile_entry fe"
      "p = [fst le, fst re, fst fe]"
    by (auto simp: row_tiles_def)
  have "qualifying es p"
    unfolding qualifying_def
    using le(1,2) re(1,2) fe
    by (intro exI [of _ "fst le"] exI [of _ "snd le"] exI [of _ "fst re"] exI [of _ "snd re"]
        exI [of _ "fst fe"] exI [of _ "snd fe"]) (simp add: level_dir_def tile_entry_def)
  then show "p \<in> {p. qualifying es p}" by simp
next
  fix p assume "p \<in> {p. qualifying es p}"
  then obtain level ln row rn tile fn where q:
    "p = [level, row, tile]" "(level, ln) \<in> set es" "is_directory ln" "all_digits level"
    "(row, rn) \<in> set (entries_of ln)" "is_directory rn"
    "(tile, fn) \<in> set (entries_of rn)" "is_regular_file fn" "is_tile_extension tile"
    by (auto simp: qualifying_def)
  have "p \<in> set (row_tiles [level, row] (entries_of rn))"
    using q(1,7,8,9) by (force simp: row_tiles_def tile_entry_def)
  then have "p \<in> set (level_tiles [level] (entries_of ln))"
    using q(5,6) by (force simp: level_tiles_def)
  then show "p \<in> set (folder_tiles es)"
    using q(2,3,4) by (force simp: folder_tiles_def level_dir_def)
qed

lemma distinct_row_tiles: "distinct (map fst es) \<Longrightarrow> distinct (row_tiles dir es)"
  unfolding row_tiles_def
  by (simp add: distinct_map inj_on_def)

lemma distinct_concat_tagged:
  assumes "distinct (map fst es)"
    and "\<And>e. e \<in> set es \<Longrightarrow> distinct (f e)"
    and "\<And>e p. e \<in> set es \<Longrightarrow> p \<in> set (f e) \<Longrightarrow> tag p = fst e"
  shows "distinct (concat (map f (filter P es)))"
  using assms
proof (induction es)
  case Nil
  then show ?case by simp
next
  case (Cons e es)
  have ih: "distinct (concat (map f (filter P es)))"
    using Cons.prems by (intro Cons.IH) auto
  have disj: "set (f e) \<inter> set (concat (map f (filter P es))) = {}"
  proof (rule ccontr)
    assume "set (f e) \<inter> set (concat (map f (filter P es))) \<noteq> {}"
    then obtain p e' where p: "p \<in> set (f e)" "e' \<in> set es" "p \<in> set (f e')" by auto
    from Cons.prems(3) [of e p] p(1) have "tag p = fst e" by simp
    moreover from Cons.prems(3) [of e' p] p(2,3) have "tag p = fst e'" by simp
    ultimately have "fst e = fst e'" by simp
    with p(2) have "fst e \<in> fst ` set es" by (rule_tac image_eqI)
    with Cons.prems(1) show False by simp
  qed
  from ih disj Cons.prems(2) [of e] show ?case by simp
qed

lemma distinct_level_tiles:
  assumes "distinct (map fst es)" and "list_all (\<lambda>e. wf_names (snd e)) es"
  shows "distinct (level_tiles dir es)"
  unfolding level_tiles_def
proof (rule distinct_concat_tagged [where tag = "\<lambda>p. p ! length dir", OF assms(1)])
  fix e assume "e \<in> set es"
  with assms(2) have "wf_names (snd e)" by (simp add: list_all_iff)
  then have "distinct (map fst (entries_of (snd e)))" by (cases "snd e") auto
  then show "distinct (row_tiles (dir @ [fst e]) (entries_of (snd e)))"
    by (rule distinct_row_tiles)
next
  fix e p assume "p \<in> set (row_tiles (dir @ [fst e]) (entries_of (snd e)))"
  then show "p ! length dir = fst e"
    by (auto simp: row_tiles_def nth_append)
qed

lemma level_tiles_hd: "p \<in> set (level_tiles [l] es) \<Longrightarrow> p ! 0 = l"
  by (auto simp: level_tiles_def row_tiles_def)

lemma distinct_folder_tiles:
  assumes "wf_names (Dir ok es)"
  shows "distinct (folder_tiles es)"
  unfolding folder_tiles_def
proof (rule distinct_concat_tagged [where tag = "\<lambda>p. p ! 0"])
  from assms show "distinct (map fst es)" by simp
next
  fix e assume "e \<in> set es"
  with assms have "wf_names (snd e)" by (simp add: list_all_iff)
  then have "distinct (map fst (entries_of (snd e))) \<and>
      list_all (\<lambda>e. wf_names (snd e)) (entries_of (snd e))"
    by (cases "snd e") auto
  then show "distinct (level_tiles [fst e] (entries_of (snd e)))"
    by (simp add: distinct_level_tiles)
next
  fix e p assume "p \<in> set (level_tiles [fst e] (entries_of (snd e)))"
  then show "p ! 0 = fst e" by (rule level_tiles_hd)
qed

lemma filter_level_dir_update:
  "map_of es k = None \<or> (\<exists>d. map_of es k = Some (File True d)) \<Longrightarrow>
   filter level_dir (AList.update k (File ok b) es) = filter level_dir es"
  by (induction es) (auto simp: level_dir_def split: if_splits)

lemma folder_tiles_update:
  "map_of es k = None \<or> (\<exists>d. map_of es k = Some (File True d)) \<Longrightarrow>
   folder_tiles (AList.update k (File ok b) es) = folder_tiles es"
  by (simp add: folder_tiles_def filter_level_dir_update)

lemma merge_Inr_tiles:
  assumes "merge_tiles_to_binary room z tf bn keep (Dir ok es) = Inr (tm, folder')"
  obtains cs where
    "ok" "map_of es bn = None \<or> (\<exists>d. map_of es bn = Some (File True d))"
    "list_all2 (compresses_to z (Dir True (AList.update bn (File True []) es)))
       (sort (folder_tiles es)) cs"
    "tm = entries_from bn 0 (zip (sort (folder_tiles es)) cs)"
    "keep \<or> bn \<noteq> ''blank.png'' \<Longrightarrow> file_bytes bn folder' = Some (blob_written room cs)"
proof -
  from merge_Inr [OF assms] obtain es0 tile_files cs where
    m: "Dir ok es = Dir True es0"
      "map_of es0 bn = None \<or> (\<exists>d. map_of es0 bn = Some (File True d))"
      "collect_levels tf (AList.update bn (File True []) es0) [] = Inr tile_files"
      "list_all2 (compresses_to z (Dir True (AList.update bn (File True []) es0))) (sort tile_files) cs"
      "tm = entries_from bn 0 (zip (sort tile_files) cs)"
      "keep \<Longrightarrow> folder' = Dir True (AList.update bn (File True (blob_written room cs)) es0)"
      "\<not> keep \<Longrightarrow> \<exists>es3 es4.
         remove_level_dirs tf (AList.update bn (File True (blob_written room cs)) es0) = Inr es3 \<and>
         remove_blank_png tf es3 = Inr es4 \<and> folder' = Dir True es4"
    by metis
  from m(1) have e: "ok" "es0 = es" by simp_all
  from collect_levels_Inr [OF m(3)] folder_tiles_update [OF m(2)]
  have t: "tile_files = folder_tiles es" by (simp add: e)
  have fb: "file_bytes bn folder' = Some (blob_written room cs)" if "keep \<or> bn \<noteq> ''blank.png''"
  proof (cases keep)
    case True
    with m(6) show ?thesis by (simp add: file_bytes_def update_conv')
  next
    case False
    with m(7) obtain es3 es4 where
      r: "remove_level_dirs tf (AList.update bn (File True (blob_written room cs)) es0) = Inr es3"
        "remove_blank_png tf es3 = Inr es4" "folder' = Dir True es4"
      by blast
    from False that have "bn \<noteq> ''blank.png''" by simp
    from file_bytes_after_cleanup [OF r(1) r(2) this] r(3)
    show ?thesis by (simp add: file_bytes_def)
  qed
  from that [OF e(1) m(2) [unfolded e] m(4) [unfolded e t] m(5) [unfolded t]] fb
  show thesis by blast
qed

lemma can_open_iff: "can_open n \<longleftrightarrow> (\<exists>es. n = Dir True es)"
  by (cases n) auto

lemma directory_iterator_can_open:
  "can_open n \<Longrightarrow> directory_iterator p n = Inr (entries_of n)"
  by (cases n) (auto simp: directory_iterator_def)

lemma directory_iterator_cannot_open:
  "\<not> can_open n \<Longrightarrow> \<exists>e. directory_iterator p n = Inl e"
  by (cases n) (auto simp: directory_iterator_def)

lemma collect_rows_open:
  "rows_open es \<Longrightarrow> collect_rows tf dir es acc = Inr (acc @ level_tiles dir es)"
proof (induction es arbitrary: acc)
  case Nil
  then show ?case by (simp add: level_tiles_def)
next
  case (Cons e es)
  obtain name n where e: "e = (name, n)" by (cases e)
  show ?case
  proof (cases "is_directory n")
    case False
    with Cons e show ?thesis by (simp add: rows_open_def level_tiles_def)
  next
    case True
    with Cons.prems e have o: "can_open n" and r: "rows_open es"
      by (simp_all add: rows_open_def)
    from Cons.IH [OF r] o True e show ?thesis
      by (simp add: directory_iterator_can_open collect_tiles_eq level_tiles_def)
  qed
qed

lemma collect_rows_not_open:
  "\<not> rows_open es \<Longrightarrow> \<exists>e. collect_rows tf dir es acc = Inl e"
proof (induction es arbitrary: acc)
  case Nil
  then show ?case by (simp add: rows_open_def)
next
  case (Cons e es)
  obtain name n where e: "e = (name, n)" by (cases e)
  show ?case
  proof (cases "is_directory n")
    case False
    with Cons e show ?thesis by (simp add: rows_open_def)
  next
    case True
    show ?thesis
    proof (cases "can_open n")
      case False
      from directory_iterator_cannot_open [OF False, of "path_string tf (dir @ [name])"]
      obtain x where "directory_iterator (path_string tf (dir @ [name])) n = Inl x" by blast
      with True e show ?thesis by simp
    next
      case o: True
      with Cons.prems True e have "\<not> rows_open es" by (simp add: rows_open_def)
      from Cons.IH [OF this] o True e show ?thesis
        by (simp add: directory_iterator_can_open)
    qed
  qed
qed

lemma collect_levels_open:
  "levels_open es \<Longrightarrow> collect_levels tf es acc = Inr (acc @ folder_tiles es)"
proof (induction es arbitrary: acc)
  case Nil
  then show ?case by (simp add: folder_tiles_def)
next
  case (Cons e es)
  obtain name n where e: "e = (name, n)" by (cases e)
  show ?case
  proof (cases "level_dir e")
    case False
    with Cons.prems have "levels_open es" by (simp add: levels_open_def)
    from Cons.IH [OF this] False e show ?thesis
      by (auto simp: level_dir_def folder_tiles_def)
  next
    case True
    with Cons.prems e have o: "can_open n" and r: "rows_open (entries_of n)"
      and l: "levels_open es"
      by (simp_all add: levels_open_def)
    from True e have d: "is_directory n" "all_digits name" by (simp_all add: level_dir_def)
    from Cons.IH [OF l] o d e True show ?thesis
      by (simp add: directory_iterator_can_open collect_rows_open [OF r] folder_tiles_def)
  qed
qed

lemma collect_levels_not_open:
  "\<not> levels_open es \<Longrightarrow> \<exists>e. collect_levels tf es acc = Inl e"
proof (induction es arbitrary: acc)
  case Nil
  then show ?case by (simp add: levels_open_def)
next
  case (Cons e es)
  obtain name n where e: "e = (name, n)" by (cases e)
  show ?case
  proof (cases "level_dir e")
    case False
    with Cons.prems have "\<not> levels_open es" by (simp add: levels_open_def)
    from Cons.IH [OF this] False e show ?thesis
      by (auto simp: level_dir_def)
  next
    case True
    from True e have d: "is_directory n" "all_digits name" by (simp_all add: level_dir_def)
    show ?thesis
    proof (cases "can_open n")
      case False
      from directory_iterator_cannot_open [OF False, of "path_string tf [name]"]
      obtain x where "directory_iterator (path_string tf [name]) n = Inl x" by blast
      with d e show ?thesis by simp
    next
      case o: True
      show ?thesis
      proof (cases "rows_open (entries_of n)")
        case False
        from collect_rows_not_open [OF False, of tf "[name]" acc] o d e show ?thesis
          by (auto simp: directory_iterator_can_open)
      next
        case r: True
        with Cons.prems True o e have "\<not> levels_open es" by (simp add: levels_open_def)
        from Cons.IH [OF this] o d e show ?thesis
          by (simp add: directory_iterator_can_open collect_rows_open [OF r])
      qed
    qed
  qed
qed

lemma levels_open_update:
  "creatable k es \<Longrightarrow> levels_open (AList.update k (File ok b) es) = levels_open es"
  by (simp add: levels_open_def creatable_def filter_level_dir_update)

lemma remove_level_dirs_removable:
  "list_all (\<lambda>e. removable (snd e)) (filter level_dir es) \<Longrightarrow>
   remove_level_dirs tf es = Inr (filter (\<lambda>e. \<not> level_dir e) es)"
proof (induction es)
  case Nil
  then show ?case by simp
next
  case (Cons e es)
  obtain name n where e: "e = (name, n)" by (cases e)
  from Cons have ih: "remove_level_dirs tf es = Inr (filter (\<lambda>e. \<not> level_dir e) es)"
    by (auto split: if_splits)
  show ?case
  proof (cases "level_dir e")
    case True
    with Cons.prems e ih show ?thesis by (simp add: level_dir_def)
  next
    case False
    with e ih show ?thesis by (auto simp: level_dir_def)
  qed
qed

lemma map_of_filter_key:
  "(\<And>v. P (k, v)) \<Longrightarrow> map_of (filter P es) k = map_of es k"
  by (induction es) auto

lemma not_level_dir_blank: "\<not> level_dir (''blank.png'', v)"
  by (simp add: level_dir_def all_digits_def isdigit_def)

lemma remove_blank_png_possible:
  assumes "case map_of es ''blank.png'' of Some (Dir ok (e # es')) \<Rightarrow> False | _ \<Rightarrow> True"
  shows "remove_blank_png tf es = Inr (AList.delete ''blank.png'' es)"
proof (cases "map_of es ''blank.png''")
  case None
  then have "AList.delete ''blank.png'' es = es"
    by (simp add: delete_id map_of_eq_None_iff)
  with None show ?thesis by (simp add: remove_blank_png_def)
next
  case (Some n)
  with assms show ?thesis
    by (auto simp: remove_blank_png_def split: node.splits list.splits)
qed

lemma compresses_all:
  assumes "\<forall>d. \<exists>c. z d = StreamEnd c"
  shows "\<exists>cs. list_all2 (compresses_to z folder) ps cs"
proof (induction ps)
  case Nil
  then show ?case by simp
next
  case (Cons p ps)
  then obtain cs where cs: "list_all2 (compresses_to z folder) ps cs" by blast
  from assms obtain c where "z (read_file folder p) = StreamEnd c" by blast
  then have "compresses_to z folder p c" by (simp add: compresses_to_def gzip_compress_def)
  with cs have "list_all2 (compresses_to z folder) (p # ps) (c # cs)" by simp
  then show ?case by blast
qed

lemma merge_returns:
  assumes "creatable bn es" and "levels_open es" and "\<forall>d. \<exists>c. z d = StreamEnd c"
    and "keep \<or> cleanup_possible es"
  shows "\<exists>tm folder'. merge_tiles_to_binary room z tf bn keep (Dir True es) = Inr (tm, folder')"
proof -
  let ?es1 = "AList.update bn (File True []) es"
  have o: "open_ofstream bn (Dir True es) = Some (Dir True ?es1)"
    using assms(1) by (auto simp: open_ofstream_def creatable_def)
  have di: "directory_iterator tf (Dir True ?es1) = Inr ?es1"
    by (simp add: directory_iterator_def)
  have "levels_open ?es1" using assms(1,2) by (simp add: levels_open_update)
  from collect_levels_open [OF this, of tf "[]"]
  have c: "collect_levels tf ?es1 [] = Inr (folder_tiles ?es1)" by simp
  from compresses_all [OF assms(3)] obtain cs where
    cs: "list_all2 (compresses_to z (Dir True ?es1)) (sort (folder_tiles ?es1)) cs"
    by blast
  define st where "st = foldl (ofstream_write room) ([], True) cs"
  from pack_tiles_Inr_conv [OF cs, of room bn "([], True)" 0 "[]"] obtain off tm where
    p: "pack_tiles room z bn (Dir True ?es1) (sort (folder_tiles ?es1)) ([], True) 0 [] =
          Inr (st, off, tm)"
    unfolding st_def by auto
  let ?es2 = "AList.update bn (File True (fst st)) ?es1"
  show ?thesis
  proof (cases keep)
    case True
    with o di c p show ?thesis by (simp add: merge_tiles_to_binary_def)
  next
    case False
    with assms(4) have cp: "cleanup_possible es" by simp
    have es2: "?es2 = AList.update bn (File True (fst st)) es" by (simp add: update_last)
    have f: "filter level_dir ?es2 = filter level_dir es"
      unfolding es2 using assms(1) by (simp add: filter_level_dir_update creatable_def)
    from cp have "list_all (\<lambda>e. removable (snd e)) (filter level_dir ?es2)"
      unfolding f by (simp add: cleanup_possible_def)
    from remove_level_dirs_removable [OF this]
    have r: "remove_level_dirs tf ?es2 = Inr (filter (\<lambda>e. \<not> level_dir e) ?es2)" .
    have "map_of (filter (\<lambda>e. \<not> level_dir e) ?es2) ''blank.png'' = map_of ?es2 ''blank.png''"
      by (rule map_of_filter_key) (rule not_level_dir_blank)
    also have "\<dots> = (if ''blank.png'' = bn then Some (File True (fst st))
                      else map_of es ''blank.png'')"
      unfolding es2 by (simp add: update_conv')
    finally have "case map_of (filter (\<lambda>e. \<not> level_dir e) ?es2) ''blank.png'' of
        Some (Dir ok (e # es')) \<Rightarrow> False | _ \<Rightarrow> True"
      using cp by (simp add: cleanup_possible_def)
    from remove_blank_png_possible [OF this]
    have b: "remove_blank_png tf (filter (\<lambda>e. \<not> level_dir e) ?es2) =
        Inr (AList.delete ''blank.png'' (filter (\<lambda>e. \<not> level_dir e) ?es2))" .
    from False o di c p r b show ?thesis by (simp add: merge_tiles_to_binary_def)
  qed
qed


text \<open>
  Claim C4, as amended. Among the entries of the tile folder only the directories with
  a name of digits only are entered; inside such a level every directory is entered,
  whatever its name; inside a row the regular files with extension \<open>.png\<close>, \<open>.jpg\<close> or
  \<open>.jpeg\<close> in any case are collected. Passing over an entry is never an error:
  discovery returns exactly the qualifying files whenever the directories it enters
  can be opened, it fails only when one of them cannot, and the packer returns
  whenever in addition the blob can be created, the compressor succeeds and the
  cleanup can remove what it has to. When the packer returns, its entries are the
  keys of exactly the qualifying files in sorted order, one entry for each: in a
  folder that lists no name twice the number of entries is the number of qualifying
  files.
\<close>

theorem discovery_collects_qualifying_files:
  "set (folder_tiles es) = {p. qualifying es p} \<and>
   (levels_open es \<longrightarrow> collect_levels tile_folder es [] = Inr (folder_tiles es)) \<and>
   (\<not> levels_open es \<longrightarrow> (\<exists>e. collect_levels tile_folder es [] = Inl e)) \<and>
   (creatable bin_name es \<and> levels_open es \<and> (\<forall>d. \<exists>c. z d = StreamEnd c) \<and>
      (keep \<or> cleanup_possible es) \<longrightarrow>
      (\<exists>tm f. merge_tiles_to_binary room z tile_folder bin_name keep (Dir True es) = Inr (tm, f))) \<and>
   (merge_tiles_to_binary room z tile_folder bin_name keep (Dir ok es) = Inr (tiles_map, folder') \<longrightarrow>
      map key tiles_map = map tile_key (sort (folder_tiles es)) \<and>
      length tiles_map = length (folder_tiles es) \<and>
      (wf_names (Dir ok es) \<longrightarrow>
         distinct (folder_tiles es) \<and> length tiles_map = card {p. qualifying es p}))"
proof (intro conjI impI)
  show "set (folder_tiles es) = {p. qualifying es p}" by (rule set_folder_tiles)
next
  assume "levels_open es"
  from collect_levels_open [OF this, of tile_folder "[]"]
  show "collect_levels tile_folder es [] = Inr (folder_tiles es)" by simp
next
  assume "\<not> levels_open es"
  then show "\<exists>e. collect_levels tile_folder es [] = Inl e" by (rule collect_levels_not_open)
next
  assume "creatable bin_name es \<and> levels_open es \<and> (\<forall>d. \<exists>c. z d = StreamEnd c) \<and>
      (keep \<or> cleanup_possible es)"
  then show "\<exists>tm f. merge_tiles_to_binary room z tile_folder bin_name keep (Dir True es) = Inr (tm, f)"
    by (intro merge_returns) simp_all
next
  assume a: "merge_tiles_to_binary room z tile_folder bin_name keep (Dir ok es) = Inr (tiles_map, folder')"
  from merge_Inr_tiles [OF a] obtain cs where
    m: "list_all2 (compresses_to z (Dir True (AList.update bin_name (File True []) es)))
          (sort (folder_tiles es)) cs"
       "tiles_map = entries_from bin_name 0 (zip (sort (folder_tiles es)) cs)"
    by blast
  from m(1) have len: "length (sort (folder_tiles es)) = length cs"
    by (rule list_all2_lengthD)
  show k: "map key tiles_map = map tile_key (sort (folder_tiles es))"
    unfolding m(2) key_entries_from using len
    by (simp add: map_fst_zip flip: map_map [unfolded comp_def])
  show l: "length tiles_map = length (folder_tiles es)"
    unfolding m(2) length_entries_from using len by simp
  assume wf: "wf_names (Dir ok es)"
  from distinct_folder_tiles [OF wf] show d: "distinct (folder_tiles es)" .
  from distinct_card [OF d] l show "length tiles_map = card {p. qualifying es p}"
    by (simp add: set_folder_tiles)
qed

lemma example_merge_mixed:
  "merge_tiles_to_binary None example_zlib ''out'' ''tiles_000.binz'' True example_tree_mixed =
     Inr ([\<lparr>key = ''0_0_0'', binary_name = ''tiles_000.binz'', start_offset = 0, size' = 3\<rparr>,
           \<lparr>key = ''0_thumbs_a'', binary_name = ''tiles_000.binz'', start_offset = 3, size' = 3\<rparr>],
          Dir True (entries_of example_tree_mixed @ [(''tiles_000.binz'', File True ''GZTGZA'')]))"
  by (simp add: example_tree_mixed_def example_zlib_def eval_defs)

theorem discovery_collects_qualifying_files_witness:
  "\<exists>tiles_map folder'.
     levels_open (entries_of example_tree_mixed) \<and>
     collect_levels ''out'' (entries_of example_tree_mixed) [] =
       Inr [[''0'', ''thumbs'', ''a.PNG''], [''0'', ''0'', ''0.jpg'']] \<and>
     creatable ''tiles_000.binz'' (entries_of example_tree_mixed) \<and>
     (\<forall>d. \<exists>c. example_zlib d = StreamEnd c) \<and>
     merge_tiles_to_binary None example_zlib ''out'' ''tiles_000.binz'' True example_tree_mixed
       = Inr (tiles_map, folder') \<and>
     wf_names example_tree_mixed \<and>
     map key tiles_map = [''0_0_0'', ''0_thumbs_a''] \<and>
     length tiles_map = 2 \<and>
     card {p. qualifying (entries_of example_tree_mixed) p} = 2 \<and>
     \<not> levels_open [(''0'', Dir False [])] \<and>
     (\<exists>e. collect_levels ''out'' [(''0'', Dir False [])] [] = Inl e)"
proof -
  let ?es = "entries_of example_tree_mixed"
  let ?tm = "[\<lparr>key = ''0_0_0'', binary_name = ''tiles_000.binz'', start_offset = 0, size' = 3\<rparr>,
           \<lparr>key = ''0_thumbs_a'', binary_name = ''tiles_000.binz'', start_offset = 3, size' = 3\<rparr>]"
  let ?f = "Dir True (?es @ [(''tiles_000.binz'', File True ''GZTGZA'')])"
  have t: "Dir True ?es = example_tree_mixed" by (simp add: example_tree_mixed_def)
  have m: "merge_tiles_to_binary None example_zlib ''out'' ''tiles_000.binz'' True (Dir True ?es)
      = Inr (?tm, ?f)"
    unfolding t by (rule example_merge_mixed)
  have lo: "levels_open ?es"
    by (simp add: example_tree_mixed_def levels_open_def rows_open_def level_dir_def
        all_digits_def isdigit_def)
  have cr: "creatable ''tiles_000.binz'' ?es"
    by (simp add: example_tree_mixed_def creatable_def)
  have zs: "\<forall>d. \<exists>c. example_zlib d = StreamEnd c" by (simp add: example_zlib_def)
  have wf: "wf_names (Dir True ?es)" by (simp add: example_tree_mixed_def)
  have ft: "folder_tiles ?es = [[''0'', ''thumbs'', ''a.PNG''], [''0'', ''0'', ''0.jpg'']]"
    by (simp add: example_tree_mixed_def tiles_defs)
  note T = discovery_collects_qualifying_files [where es = ?es and tile_folder = "''out''"
      and bin_name = "''tiles_000.binz''" and z = example_zlib and keep = True and room = None
      and ok = True and tiles_map = ?tm and folder' = ?f]
  from T lo have c: "collect_levels ''out'' ?es [] = Inr (folder_tiles ?es)" by blast
  from T cr lo zs
  have r: "\<exists>tm f. merge_tiles_to_binary None example_zlib ''out'' ''tiles_000.binz'' True (Dir True ?es)
      = Inr (tm, f)"
    by blast
  from T m wf have e: "map key ?tm = map tile_key (sort (folder_tiles ?es))"
    "length ?tm = card {p. qualifying ?es p}"
    by blast+
  have nlo: "\<not> levels_open [(''0'', Dir False [])]"
    by (simp add: levels_open_def level_dir_def all_digits_def isdigit_def)
  from discovery_collects_qualifying_files [where es = "[(''0'', Dir False [])]"
      and tile_folder = "''out''"] nlo
  have "\<exists>e. collect_levels ''out'' [(''0'', Dir False [])] [] = Inl e" by blast
  then obtain err where f: "collect_levels ''out'' [(''0'', Dir False [])] [] = Inl err" ..
  have k: "map key ?tm = [''0_0_0'', ''0_thumbs_a'']" "length ?tm = 2" by simp_all
  from e(2) have card: "card {p. qualifying ?es p} = 2" by simp
  have wf': "wf_names example_tree_mixed" using wf unfolding t .
  show ?thesis
    by (intro exI conjI)
       (rule lo c [unfolded ft] cr zs example_merge_mixed wf' k card nlo f)+
qed

text \<open>
  Claim C4 as stated fails at the row layer: a directory \<open>thumbs\<close> inside level \<open>0\<close> is
  entered and its file gets the entry \<open>0_thumbs_a\<close>.
\<close>

theorem nonnumeric_row_is_entered:
  "merge_tiles_to_binary None example_zlib ''out'' ''tiles_000.binz'' True
     (Dir True [(''0'', Dir True [(''thumbs'', Dir True [(''a.png'', File True ''x'')])])]) =
   Inr ([\<lparr>key = ''0_thumbs_a'', binary_name = ''tiles_000.binz'', start_offset = 0, size' = 3\<rparr>],
        Dir True [(''0'', Dir True [(''thumbs'', Dir True [(''a.png'', File True ''x'')])]),
                  (''tiles_000.binz'', File True ''GZx'')])"
  by (simp add: example_zlib_def eval_defs)

section \<open>Determinism of packing\<close>

lemma sort_cong_mset:
  fixes xs ys :: "'a::linorder list"
  assumes "mset xs = mset ys"
  shows "sort xs = sort ys"
proof -
  have "mset (sort ys) = mset xs" using assms by simp
  then show ?thesis by (rule properties_for_sort) simp
qed

lemma read_file_update:
  assumes "qualifying es p" and "distinct (map fst es)"
    and "map_of es bn = None \<or> (\<exists>d. map_of es bn = Some (File True d))"
  shows "read_file (Dir True (AList.update bn (File ok b) es)) p = read_file (Dir True es) p"
proof -
  from assms(1) obtain level ln rest where
    p: "p = level # rest" "(level, ln) \<in> set es" "is_directory ln"
    by (auto simp: qualifying_def)
  from p(2) assms(2) have l: "map_of es level = Some ln" by simp
  with p(3) assms(3) have "level \<noteq> bn" by auto
  then have "map_of (AList.update bn (File ok b) es) level = map_of es level"
    by (simp add: update_conv')
  then show ?thesis by (simp add: read_file_def p(1))
qed

lemma compressed_unique:
  assumes "list_all2 (compresses_to z f) ps cs" and "list_all2 (compresses_to z f') ps cs'"
    and "\<forall>p \<in> set ps. read_file f p = read_file f' p"
  shows "cs = cs'"
proof (rule nth_equalityI)
  have "length ps = length cs" using assms(1) by (rule list_all2_lengthD)
  moreover have "length ps = length cs'" using assms(2) by (rule list_all2_lengthD)
  ultimately show len: "length cs = length cs'" by simp
  fix i assume i: "i < length cs"
  with assms(1) have a: "compresses_to z f (ps ! i) (cs ! i)" and ip: "i < length ps"
    by (auto simp: list_all2_conv_all_nth)
  from i len assms(2) have b: "compresses_to z f' (ps ! i) (cs' ! i)"
    by (auto simp: list_all2_conv_all_nth)
  from ip assms(3) have "read_file f (ps ! i) = read_file f' (ps ! i)" by simp
  with a b show "cs ! i = cs' ! i" by (simp add: compresses_to_def)
qed

lemma merge_depends_on_opened:
  "open_ofstream bn f = open_ofstream bn f' \<Longrightarrow>
   merge_tiles_to_binary room z tf bn keep f = merge_tiles_to_binary room z tf bn keep f'"
  by (simp add: merge_tiles_to_binary_def)

lemma open_ofstream_written:
  assumes "map_of es bn = None \<or> (\<exists>d. map_of es bn = Some (File True d))"
  shows "open_ofstream bn (Dir True (AList.update bn (File True blob) es)) =
         open_ofstream bn (Dir True es)"
  using assms by (auto simp: open_ofstream_def update_conv' update_last)

lemma append_less_append_same:
  fixes xs :: "'a::linorder list"
  shows "(xs @ ys < xs @ zs) = (ys < zs)"
  by (induction xs) auto

lemma above_slash_less:
  assumes "\<forall>c \<in> set a. CHR ''/'' < c" and "\<forall>c \<in> set b. CHR ''/'' < c"
  shows "(a @ CHR ''/'' # x < b @ CHR ''/'' # y) = (a < b \<or> a = b \<and> x < y)"
  using assms
proof (induction a arbitrary: b)
  case Nil
  then show ?case by (cases b) auto
next
  case (Cons c a)
  show ?case
  proof (cases b)
    case Nil
    with Cons.prems show ?thesis by auto
  next
    case (Cons d b')
    with Cons.prems Cons.IH [of b'] show ?thesis by auto
  qed
qed

lemma isdigit_above_slash: "all_digits s \<Longrightarrow> \<forall>c \<in> set s. CHR ''/'' < c"
proof
  fix c assume "all_digits s" "c \<in> set s"
  then have "CHR ''0'' \<le> c" by (auto simp: all_digits_def isdigit_def list_all_iff)
  moreover have "CHR ''/'' < CHR ''0''" by simp
  ultimately show "CHR ''/'' < c" by (rule less_le_trans [rotated])
qed

lemma path_string_order:
  assumes "all_digits l" "all_digits l'" "all_digits r" "all_digits r'"
  shows "(path_string tf [l, r, f] < path_string tf [l', r', f']) = ([l, r, f] < [l', r', f'])"
proof -
  note a = isdigit_above_slash
  have "(path_string tf [l, r, f] < path_string tf [l', r', f']) =
        (l @ CHR ''/'' # (r @ CHR ''/'' # f) < l' @ CHR ''/'' # (r' @ CHR ''/'' # f'))"
    by (simp add: path_string_def append_less_append_same)
  also have "\<dots> = (l < l' \<or> l = l' \<and> (r @ CHR ''/'' # f < r' @ CHR ''/'' # f'))"
    by (rule above_slash_less [OF a [OF assms(1)] a [OF assms(2)]])
  also have "\<dots> = (l < l' \<or> l = l' \<and> (r < r' \<or> r = r' \<and> f < f'))"
    by (simp only: above_slash_less [OF a [OF assms(3)] a [OF assms(4)]])
  also have "\<dots> = ([l, r, f] < [l', r', f'])" by auto
  finally show ?thesis .
qed

lemma qualifying_iff: "qualifying es p \<longleftrightarrow> p \<in> set (folder_tiles es)"
  by (simp add: set_folder_tiles)

lemma sorted_path_strings:
  assumes "\<forall>p. qualifying es p \<longrightarrow> all_digits (p ! 1)"
  shows "sorted (map (path_string tf) (sort (folder_tiles es)))"
proof -
  have mono: "path_string tf p \<le> path_string tf q"
    if "p \<in> set (sort (folder_tiles es))" "q \<in> set (sort (folder_tiles es))" "p \<le> q" for p q
  proof -
    from that(1) have qp: "qualifying es p" by (simp add: qualifying_iff)
    from that(2) have qq: "qualifying es q" by (simp add: qualifying_iff)
    from qp obtain l r f where p: "p = [l, r, f]" "all_digits l"
      by (auto simp: qualifying_def)
    from qq obtain l' r' f' where q: "q = [l', r', f']" "all_digits l'"
      by (auto simp: qualifying_def)
    from assms qp p(1) have r: "all_digits r" by fastforce
    from assms qq q(1) have r': "all_digits r'" by fastforce
    from that(3) consider "p < q" | "p = q" by (auto simp: le_less)
    then show ?thesis
    proof cases
      case 1
      with path_string_order [OF p(2) q(2) r r', of tf f f'] p(1) q(1)
      show ?thesis by simp
    next
      case 2
      then show ?thesis by simp
    qed
  qed
  have "sorted_wrt (\<le>) (sort (folder_tiles es))" by simp
  then have "sorted_wrt (\<lambda>p q. path_string tf p \<le> path_string tf q) (sort (folder_tiles es))"
    by (rule sorted_wrt_mono_rel [rotated]) (rule mono)
  then show ?thesis by (simp add: sorted_wrt_map)
qed

text \<open>
  Claim C5, as amended. Two runs of the packer on folders that hold the same tile
  files with the same bytes, whatever the order in which the directories enumerate
  them, return the same entries in the same order and write the same blob; a second
  run on the folder the first run left (tiles kept) returns the same again. The
  order is that of \<open>fs::path\<close>: the paths are compared component by component, level,
  row, then file name. Where all row directories have names of digits only, that is
  also the order of the full path strings.
\<close>

theorem packing_is_deterministic:
  assumes "merge_tiles_to_binary room z tile_folder bin_name keep (Dir ok es) = Inr (tiles_map, folder')"
    and "merge_tiles_to_binary room z tile_folder bin_name keep (Dir ok' es') = Inr (tiles_map', folder'')"
    and "wf_names (Dir ok es)" and "wf_names (Dir ok' es')"
    and "{p. qualifying es p} = {p. qualifying es' p}"
    and "\<forall>p. qualifying es p \<longrightarrow> read_file (Dir ok es) p = read_file (Dir ok' es') p"
    and "keep \<or> bin_name \<noteq> ''blank.png''"
  shows "tiles_map' = tiles_map \<and>
         (\<exists>blob. file_bytes bin_name folder' = Some blob \<and> file_bytes bin_name folder'' = Some blob) \<and>
         map key tiles_map = map tile_key (sort (folder_tiles es)) \<and>
         (keep \<longrightarrow> merge_tiles_to_binary room z tile_folder bin_name keep folder' = Inr (tiles_map, folder')) \<and>
         ((\<forall>p. qualifying es p \<longrightarrow> all_digits (p ! 1)) \<longrightarrow>
            sorted (map (path_string tile_folder) (sort (folder_tiles es))))"
proof -
  from merge_Inr_tiles [OF assms(1)] obtain cs where
    a: "ok" "map_of es bin_name = None \<or> (\<exists>d. map_of es bin_name = Some (File True d))"
      "list_all2 (compresses_to z (Dir True (AList.update bin_name (File True []) es)))
         (sort (folder_tiles es)) cs"
      "tiles_map = entries_from bin_name 0 (zip (sort (folder_tiles es)) cs)"
      "keep \<or> bin_name \<noteq> ''blank.png'' \<Longrightarrow> file_bytes bin_name folder' = Some (blob_written room cs)"
    by blast
  from merge_Inr_tiles [OF assms(2)] obtain cs' where
    b: "ok'" "map_of es' bin_name = None \<or> (\<exists>d. map_of es' bin_name = Some (File True d))"
      "list_all2 (compresses_to z (Dir True (AList.update bin_name (File True []) es')))
         (sort (folder_tiles es')) cs'"
      "tiles_map' = entries_from bin_name 0 (zip (sort (folder_tiles es')) cs')"
      "keep \<or> bin_name \<noteq> ''blank.png'' \<Longrightarrow> file_bytes bin_name folder'' = Some (blob_written room cs')"
    by blast
  have d: "distinct (folder_tiles es)" "distinct (folder_tiles es')"
    by (rule distinct_folder_tiles [OF assms(3)], rule distinct_folder_tiles [OF assms(4)])
  have "set (folder_tiles es) = set (folder_tiles es')"
    using assms(5) by (simp add: set_folder_tiles)
  with d have "mset (folder_tiles es) = mset (folder_tiles es')"
    by (simp add: set_eq_iff_mset_eq_distinct)
  then have s: "sort (folder_tiles es') = sort (folder_tiles es)"
    by (rule sort_cong_mset [symmetric])
  have reads: "\<forall>p \<in> set (sort (folder_tiles es)).
      read_file (Dir True (AList.update bin_name (File True []) es)) p =
      read_file (Dir True (AList.update bin_name (File True []) es')) p"
  proof
    fix p assume "p \<in> set (sort (folder_tiles es))"
    then have q: "qualifying es p" by (simp add: qualifying_iff)
    with assms(5) have q': "qualifying es' p" by auto
    from assms(3) have de: "distinct (map fst es)" by simp
    from assms(4) have de': "distinct (map fst es')" by simp
    from q assms(6) a(1) b(1) have "read_file (Dir True es) p = read_file (Dir True es') p"
      by simp
    with read_file_update [OF q de a(2)] read_file_update [OF q' de' b(2)]
    show "read_file (Dir True (AList.update bin_name (File True []) es)) p =
      read_file (Dir True (AList.update bin_name (File True []) es')) p"
      by simp
  qed
  from compressed_unique [OF a(3) b(3) [unfolded s] reads] have c: "cs = cs'" .
  from a(4) b(4) s c have same: "tiles_map' = tiles_map" by simp
  from a(5) b(5) c assms(7)
  have blob: "\<exists>blob. file_bytes bin_name folder' = Some blob \<and> file_bytes bin_name folder'' = Some blob"
    by simp
  from a(3) have len: "length (sort (folder_tiles es)) = length cs"
    by (rule list_all2_lengthD)
  have k: "map key tiles_map = map tile_key (sort (folder_tiles es))"
    unfolding a(4) key_entries_from using len
    by (simp add: map_fst_zip flip: map_map [unfolded comp_def])
  have again: "merge_tiles_to_binary room z tile_folder bin_name keep folder' = Inr (tiles_map, folder')"
    if keep
  proof -
    from merge_Inr_folder [OF assms(1)] that a(1) obtain blob where
      f: "folder' = Dir True (AList.update bin_name (File True blob) es)"
      by auto
    have "merge_tiles_to_binary room z tile_folder bin_name keep folder' =
          merge_tiles_to_binary room z tile_folder bin_name keep (Dir True es)"
      unfolding f by (rule merge_depends_on_opened) (rule open_ofstream_written [OF a(2)])
    with assms(1) a(1) show ?thesis by simp
  qed
  from same blob k again sorted_path_strings [of es tile_folder] show ?thesis by blast
qed

lemma example_merge_kept:
  "merge_tiles_to_binary None example_zlib ''out'' ''tiles_000.binz'' True example_tree =
     Inr ([\<lparr>key = ''0_0_0'', binary_name = ''tiles_000.binz'', start_offset = 0, size' = 6\<rparr>,
           \<lparr>key = ''1_0_0'', binary_name = ''tiles_000.binz'', start_offset = 6, size' = 6\<rparr>,
           \<lparr>key = ''1_0_1'', binary_name = ''tiles_000.binz'', start_offset = 12, size' = 6\<rparr>,
           \<lparr>key = ''1_1_0'', binary_name = ''tiles_000.binz'', start_offset = 18, size' = 6\<rparr>],
          Dir True (entries_of example_tree @
            [(''tiles_000.binz'', File True ''GZt000GZt100GZt101GZt110'')]))"
  by (simp add: example_tree_def example_zlib_def eval_defs)

lemma example_merge_reordered:
  "merge_tiles_to_binary None example_zlib ''out'' ''tiles_000.binz'' True example_tree_reordered =
     Inr ([\<lparr>key = ''0_0_0'', binary_name = ''tiles_000.binz'', start_offset = 0, size' = 6\<rparr>,
           \<lparr>key = ''1_0_0'', binary_name = ''tiles_000.binz'', start_offset = 6, size' = 6\<rparr>,
           \<lparr>key = ''1_0_1'', binary_name = ''tiles_000.binz'', start_offset = 12, size' = 6\<rparr>,
           \<lparr>key = ''1_1_0'', binary_name = ''tiles_000.binz'', start_offset = 18, size' = 6\<rparr>],
          Dir True (entries_of example_tree_reordered @
            [(''tiles_000.binz'', File True ''GZt000GZt100GZt101GZt110'')]))"
  by (simp add: example_tree_reordered_def example_zlib_def eval_defs)

lemma example_folder_tiles:
  "folder_tiles (entries_of example_tree) =
     [[''1'', ''1'', ''0.jpg''], [''1'', ''0'', ''1.jpg''], [''1'', ''0'', ''0.jpg''],
      [''0'', ''0'', ''0.jpg'']]"
  "folder_tiles (entries_of example_tree_reordered) =
     [[''0'', ''0'', ''0.jpg''], [''1'', ''0'', ''0.jpg''], [''1'', ''0'', ''1.jpg''],
      [''1'', ''1'', ''0.jpg'']]"
  by (simp_all add: example_tree_def example_tree_reordered_def tiles_defs)

theorem packing_is_deterministic_witness:
  "\<exists>tiles_map folder' folder'' blob.
     merge_tiles_to_binary None example_zlib ''out'' ''tiles_000.binz'' True example_tree
       = Inr (tiles_map, folder') \<and>
     merge_tiles_to_binary None example_zlib ''out'' ''tiles_000.binz'' True example_tree_reordered
       = Inr (tiles_map, folder'') \<and>
     file_bytes ''tiles_000.binz'' folder' = Some blob \<and>
     file_bytes ''tiles_000.binz'' folder'' = Some blob \<and>
     map key tiles_map = [''0_0_0'', ''1_0_0'', ''1_0_1'', ''1_1_0''] \<and>
     merge_tiles_to_binary None example_zlib ''out'' ''tiles_000.binz'' True folder'
       = Inr (tiles_map, folder') \<and>
     sorted (map (path_string ''out'') (sort (folder_tiles (entries_of example_tree))))"
proof -
  let ?es = "entries_of example_tree" and ?es' = "entries_of example_tree_reordered"
  have t: "Dir True ?es = example_tree" "Dir True ?es' = example_tree_reordered"
    by (simp_all add: example_tree_def example_tree_reordered_def)
  let ?tm = "[\<lparr>key = ''0_0_0'', binary_name = ''tiles_000.binz'', start_offset = 0, size' = 6\<rparr>,
           \<lparr>key = ''1_0_0'', binary_name = ''tiles_000.binz'', start_offset = 6, size' = 6\<rparr>,
           \<lparr>key = ''1_0_1'', binary_name = ''tiles_000.binz'', start_offset = 12, size' = 6\<rparr>,
           \<lparr>key = ''1_1_0'', binary_name = ''tiles_000.binz'', start_offset = 18, size' = 6\<rparr>]"
  let ?blob = "(''tiles_000.binz'', File True ''GZt000GZt100GZt101GZt110'')"
  have m1: "merge_tiles_to_binary None example_zlib ''out'' ''tiles_000.binz'' True (Dir True ?es)
      = Inr (?tm, Dir True (?es @ [?blob]))"
    unfolding t(1) by (rule example_merge_kept)
  have m2: "merge_tiles_to_binary None example_zlib ''out'' ''tiles_000.binz'' True (Dir True ?es')
      = Inr (?tm, Dir True (?es' @ [?blob]))"
    unfolding t(2) by (rule example_merge_reordered)
  have wf: "wf_names (Dir True ?es)" "wf_names (Dir True ?es')"
    by (simp_all add: example_tree_def example_tree_reordered_def)
  have same: "{p. qualifying ?es p} = {p. qualifying ?es' p}"
    unfolding set_folder_tiles [symmetric] example_folder_tiles by auto
  have bytes: "\<forall>p. qualifying ?es p \<longrightarrow> read_file (Dir True ?es) p = read_file (Dir True ?es') p"
    unfolding qualifying_iff example_folder_tiles
    by (auto simp: example_tree_def example_tree_reordered_def read_file_def)
  have rows: "\<forall>p. qualifying ?es p \<longrightarrow> all_digits (p ! 1)"
    unfolding qualifying_iff example_folder_tiles
    by (auto simp: all_digits_def isdigit_def)
  have k: "True \<or> ''tiles_000.binz'' \<noteq> ''blank.png''" by simp
  from packing_is_deterministic [OF m1 m2 wf same bytes k] rows
  have r: "(\<exists>blob. file_bytes ''tiles_000.binz'' (Dir True (?es @ [?blob])) = Some blob \<and>
              file_bytes ''tiles_000.binz'' (Dir True (?es' @ [?blob])) = Some blob)"
    "map key ?tm = map tile_key (sort (folder_tiles ?es))"
    "merge_tiles_to_binary None example_zlib ''out'' ''tiles_000.binz'' True (Dir True (?es @ [?blob]))
       = Inr (?tm, Dir True (?es @ [?blob]))"
    "sorted (map (path_string ''out'') (sort (folder_tiles ?es)))"
    by blast+
  from r(1) obtain blob where
    b: "file_bytes ''tiles_000.binz'' (Dir True (?es @ [?blob])) = Some blob"
       "file_bytes ''tiles_000.binz'' (Dir True (?es' @ [?blob])) = Some blob"
    by blast
  have k': "map key ?tm = [''0_0_0'', ''1_0_0'', ''1_0_1'', ''1_1_0'']" by simp
  show ?thesis
    by (intro exI conjI)
       (rule example_merge_kept example_merge_reordered b k' r(3) r(4))+
qed

text \<open>
  Claim C5 as stated names the order of the full path strings. With rows \<open>1\<close> and
  \<open>1.5\<close> in one level the two orders differ: the entry of \<open>out/0/1/0.png\<close> comes
  first, and \<open>out/0/1.5/0.png\<close> is the smaller string.
\<close>

theorem sort_is_not_by_path_string:
  "merge_tiles_to_binary None example_zlib ''out'' ''tiles_000.binz'' True
     (Dir True [(''0'', Dir True [(''1.5'', Dir True [(''0.png'', File True ''a'')]),
                                 (''1'', Dir True [(''0.png'', File True ''b'')])])]) =
   Inr ([\<lparr>key = ''0_1_0'', binary_name = ''tiles_000.binz'', start_offset = 0, size' = 3\<rparr>,
         \<lparr>key = ''0_1.5_0'', binary_name = ''tiles_000.binz'', start_offset = 3, size' = 3\<rparr>],
        Dir True [(''0'', Dir True [(''1.5'', Dir True [(''0.png'', File True ''a'')]),
                                    (''1'', Dir True [(''0.png'', File True ''b'')])]),
                  (''tiles_000.binz'', File True ''GZbGZa'')]) \<and>
   path_string ''out'' [''0'', ''1.5'', ''0.png''] < path_string ''out'' [''0'', ''1'', ''0.png'']"
  by (simp add: example_zlib_def eval_defs)

section \<open>Properties of the loop of main\<close>

lemma sched_inv_init: "1 \<le> n \<Longrightarrow> sched_inv n (init_sched tasks)"
  by (simp add: sched_inv_def init_sched_def)

lemma sched_inv_step:
  assumes "sched_inv n s" and "sched_step n ev s = Some s'"
  shows "sched_inv n s'"
proof (cases ev)
  case (Completes j)
  with assms show ?thesis
    by (auto simp: sched_inv_def split: if_splits)
next
  case MainStep
  show ?thesis
  proof (cases "at s")
    case AtLaunch
    with assms MainStep show ?thesis
      by (cases "todo s") (auto simp: sched_inv_def split: if_splits)
  next
    case AtWait
    with assms MainStep show ?thesis
      by (cases "futures s") (auto simp: sched_inv_def split: if_splits)
  next
    case AtFinalLoop
    with assms MainStep show ?thesis
      by (auto simp: sched_inv_def split: if_splits)
  next
    case AtEnd
    with assms MainStep show ?thesis by simp
  qed
qed

lemma sched_inv_run:
  "sched_inv n s \<Longrightarrow> run_events n evs s = Some s' \<Longrightarrow> sched_inv n s'"
proof (induction evs arbitrary: s)
  case Nil
  then show ?case by simp
next
  case (Cons ev evs)
  from Cons.prems(2) obtain s1 where
    s1: "sched_step n ev s = Some s1" "run_events n evs s1 = Some s'"
    by (auto split: option.splits)
  from Cons.IH [OF sched_inv_step [OF Cons.prems(1) s1(1)] s1(2)] show ?case .
qed

lemma sched_inv_card:
  assumes "sched_inv n s"
  shows "card (running s) \<le> length (futures s)"
proof -
  from assms have "running s \<subseteq> set (futures s)" by (simp add: sched_inv_def)
  then have "card (running s) \<le> card (set (futures s))" by (simp add: card_mono)
  also have "\<dots> \<le> length (futures s)" by (rule card_length)
  finally show ?thesis .
qed

lemma sched_inv_full_blocks:
  assumes "sched_inv n s" and "card (running s) = n"
  shows "sched_step n MainStep s = None"
proof -
  from sched_inv_card [OF assms(1)] assms(2) have ge: "n \<le> length (futures s)" by simp
  with assms(1) have w: "at s = AtWait" and len: "length (futures s) = n"
    by (auto simp: sched_inv_def)
  from assms(1) w obtain front others where f: "futures s = front # others"
    by (cases "futures s") (auto simp: sched_inv_def)
  from assms(1) have sub: "running s \<subseteq> set (futures s)" by (simp add: sched_inv_def)
  have "card (set (futures s)) \<le> card (running s)"
    using card_length [of "futures s"] len assms(2) by simp
  with sub have "running s = set (futures s)"
    by (intro card_seteq) auto
  with f have "front \<in> running s" by simp
  with w f show ?thesis by simp
qed

text \<open>
  Claim C7. For at least one thread, in every state that the loop of \<open>main\<close> reaches
  under any interleaving of its own steps with completions of jobs, at most
  \<open>n_threads\<close> jobs are running; and when \<open>n_threads\<close> jobs are running, the main
  thread cannot take a step: it is blocked in \<open>wait\<close> on the front future, so that no
  job is launched before a running job completes.
\<close>

theorem at_most_n_threads_in_flight:
  assumes "1 \<le> n_threads" and "run_events n_threads evs (init_sched tasks) = Some s"
  shows "card (running s) \<le> n_threads \<and>
         (card (running s) = n_threads \<longrightarrow> sched_step n_threads MainStep s = None)"
proof -
  from sched_inv_run [OF sched_inv_init [OF assms(1)] assms(2)] have i: "sched_inv n_threads s" .
  from sched_inv_card [OF i] i have "card (running s) \<le> n_threads"
    by (simp add: sched_inv_def)
  with sched_inv_full_blocks [OF i] show ?thesis by simp
qed

theorem at_most_n_threads_in_flight_witness:
  "\<exists>s. run_events 2 [MainStep, MainStep] (init_sched [0, 1, 2]) = Some s \<and>
       running s = {0, 1} \<and> card (running s) = 2 \<and> todo s = [2] \<and>
       sched_step 2 MainStep s = None \<and>
       (\<exists>s'. run_events 2 [Completes 0, MainStep, MainStep] s = Some s' \<and>
             running s' = {1, 2} \<and> todo s' = [])"
proof -
  let ?s = "\<lparr>todo = [2], futures = [0, 1], final_pos = 0, running = {0, 1}, at = AtWait\<rparr>"
  have r: "run_events 2 [MainStep, MainStep] (init_sched [0, 1, 2]) = Some ?s"
    by (simp add: init_sched_def insert_commute)
  have one: "(1::nat) \<le> 2" by simp
  from at_most_n_threads_in_flight [OF one r]
  have b: "card (running ?s) = 2 \<longrightarrow> sched_step 2 MainStep ?s = None" by simp
  have c: "card (running ?s) = 2" by simp
  with b have blocked: "sched_step 2 MainStep ?s = None" by blast
  have after: "\<exists>s'. run_events 2 [Completes 0, MainStep, MainStep] ?s = Some s' \<and>
             running s' = {1, 2} \<and> todo s' = []"
    by (simp add: insert_commute)
  from r c blocked after show ?thesis
    by (intro exI [of _ ?s]) simp
qed

end
